theory Spec2Isabelle
  imports Main "HOL-Library.Word"
begin

section \<open>Data model of the worker subsystem (worker.h, worker.cc)\<close>

text \<open>
  A \<open>Redis::Connection*\<close> is an address; the objects live in a store that every
  Worker of the process shares. \<open>store\<close> is total and \<open>alloc\<close> is the set of addresses
  that hold a constructed, not yet deleted Connection. Reading a deleted object is
  undefined in C++; the model reads the object as it was last written, and the invariant
  of the tables (\<open>worker_inv\<close> below) says that a table holds allocated objects only.
\<close>

type_synonym ptr = nat

datatype Flag = kMonitor | kCloseAfterReply

datatype Event = EV_READ | EV_WRITE

text \<open>
  Modelled from the spec: the class \<open>Redis::Connection\<close> (redis_connection.h is not among
  the verified files). The fields are the attributes the spec lists for a Connection that
  worker.cc reads or writes through getters and setters. \<open>id_assigned\<close> is a ghost field:
  it records that \<open>SetID\<close> has run on the object ("assigned at admission").
  \<open>idle_time\<close> is what \<open>GetIdleTime()\<close> returns at the moment of the call
  (\<open>now - last_interaction_at\<close>, an unsigned 64-bit number of seconds).
\<close>

record Connection =
  conn_fd :: int
  conn_id :: "64 word"
  id_assigned :: bool
  conn_addr :: string
  conn_name :: string
  conn_ns :: string
  conn_flags :: "Flag set"
  idle_time :: "64 word"
  conn_output :: string
  bev_events :: "Event set"
  owner :: nat

text \<open>
  Modelled from the spec: \<open>class Status\<close> (status.h is not among the sources), as worker.cc
  uses it: \<open>Status::OK()\<close>, \<open>Status(Status::NotOK, msg)\<close>, \<open>IsOK()\<close>, \<open>Msg()\<close>. \<open>Status(NotOK)\<close>
  without a message is \<open>NotOK []\<close>.
\<close>

datatype Status = OK | NotOK string

fun IsOK :: "Status \<Rightarrow> bool" where
  "IsOK OK = True"
| "IsOK (NotOK m) = False"

fun Msg :: "Status \<Rightarrow> string" where
  "Msg OK = []"
| "Msg (NotOK m) = m"

text \<open>The two options of \<open>Config\<close> that worker.cc reads at run time.\<close>

record Config =
  maxclients :: int
  timeout :: int

text \<open>
  Modelled from the spec: the process-wide registry held by \<open>Server\<close> (server.h is not
  among the verified files): \<open>next_id\<close> (u64), \<open>client_count\<close> and \<open>monitor_count\<close>.
\<close>

record Server =
  config :: Config
  next_id :: "64 word"
  client_count :: int
  monitor_count :: int

text \<open>
  \<open>std::map<int, Redis::Connection*>\<close>: an association list kept in ascending key order,
  which is the order in which the C++ map iterates.
\<close>

type_synonym conn_map = "(int \<times> ptr) list"

record Worker =
  conns :: conn_map
  monitor_conns :: conn_map
  last_iter_conn_fd :: int

text \<open>What the process did on its sockets, in order.\<close>

datatype sock_event = Wrote int string | Closed int

record world =
  svr :: Server
  store :: "ptr \<Rightarrow> Connection"
  alloc :: "ptr set"
  workers :: "nat \<Rightarrow> Worker"
  sock_log :: "sock_event list"

subsection \<open>Operations of std::map\<close>

definition map_find :: "conn_map \<Rightarrow> int \<Rightarrow> ptr option" where
  "map_find m k = map_of m k"

fun map_put :: "int \<Rightarrow> ptr \<Rightarrow> conn_map \<Rightarrow> conn_map" where
  "map_put k v [] = [(k, v)]"
| "map_put k v ((k', v') # m) =
     (if k < k' then (k, v) # (k', v') # m
      else if k = k' then (k, v) # m
      else (k', v') # map_put k v m)"

text \<open>\<open>insert\<close> keeps an entry that is already there; \<open>operator[]\<close> overwrites it.\<close>

definition map_insert :: "int \<Rightarrow> ptr \<Rightarrow> conn_map \<Rightarrow> conn_map" where
  "map_insert k v m = (case map_find m k of None \<Rightarrow> map_put k v m | Some _ \<Rightarrow> m)"

definition map_erase :: "int \<Rightarrow> conn_map \<Rightarrow> conn_map" where
  "map_erase k m = filter (\<lambda>e. fst e \<noteq> k) m"

text \<open>\<open>upper_bound(k)\<close>: the position of the first entry whose key is greater than \<open>k\<close>,
  the length of the list standing for \<open>end()\<close>.\<close>

definition upper_bound :: "conn_map \<Rightarrow> int \<Rightarrow> nat" where
  "upper_bound m k = length (takeWhile (\<lambda>e. fst e \<le> k) m)"

subsection \<open>Access to the store and to a Worker\<close>

definition upd_conn :: "ptr \<Rightarrow> (Connection \<Rightarrow> Connection) \<Rightarrow> world \<Rightarrow> world" where
  "upd_conn p f s = s\<lparr>store := (store s)(p := f (store s p))\<rparr>"

definition upd_worker :: "nat \<Rightarrow> (Worker \<Rightarrow> Worker) \<Rightarrow> world \<Rightarrow> world" where
  "upd_worker w f s = s\<lparr>workers := (workers s)(w := f (workers s w))\<rparr>"

definition upd_svr :: "(Server \<Rightarrow> Server) \<Rightarrow> world \<Rightarrow> world" where
  "upd_svr f s = s\<lparr>svr := f (svr s)\<rparr>"

text \<open>
  Modelled from the spec: the counters of \<open>Server\<close>. \<open>IncrClientNum\<close> returns the count
  before the increment (a fetch-and-add): this is the reading under which the test
  \<open>IncrClientNum() >= max_clients\<close> of \<open>AddConnection\<close> is the spec's "reject if the new
  value would exceed the configured cap".
\<close>

definition IncrClientNum :: "world \<Rightarrow> int \<times> world" where
  "IncrClientNum s =
     (client_count (svr s),
      upd_svr (\<lambda>v. v\<lparr>client_count := client_count v + 1\<rparr>) s)"

definition DecrClientNum :: "world \<Rightarrow> world" where
  "DecrClientNum s = upd_svr (\<lambda>v. v\<lparr>client_count := client_count v - 1\<rparr>) s"

definition IncrMonitorClientNum :: "world \<Rightarrow> world" where
  "IncrMonitorClientNum s = upd_svr (\<lambda>v. v\<lparr>monitor_count := monitor_count v + 1\<rparr>) s"

definition DecrMonitorClientNum :: "world \<Rightarrow> world" where
  "DecrMonitorClientNum s = upd_svr (\<lambda>v. v\<lparr>monitor_count := monitor_count v - 1\<rparr>) s"

text \<open>\<open>GetClientID()->fetch_add(1)\<close>: the old value, and the 64-bit counter one further.\<close>

definition fetch_add_client_id :: "world \<Rightarrow> 64 word \<times> world" where
  "fetch_add_client_id s =
     (next_id (svr s), upd_svr (\<lambda>v. v\<lparr>next_id := next_id v + 1\<rparr>) s)"

text \<open>
  Modelled from the spec: \<open>delete\<close> of a Connection ("destroy the Connection (which closes
  its socket)"; the bufferevent is created with \<open>BEV_OPT_CLOSE_ON_FREE\<close>).
\<close>

definition delete_conn :: "ptr \<Rightarrow> world \<Rightarrow> world" where
  "delete_conn p s =
     s\<lparr>alloc := alloc s - {p}, sock_log := sock_log s @ [Closed (conn_fd (store s p))]\<rparr>"

text \<open>
  Modelled from the spec: the constructor \<open>Redis::Connection(bev, worker)\<close> on a socket
  \<open>fd\<close>: no id yet, empty address, name and buffers, no flag, the default namespace
  \<open>dns\<close> (the constant \<open>kDefaultNamespace\<close>, declared outside the verified files and
  taken as a parameter).
\<close>

definition Connection_new :: "string \<Rightarrow> int \<Rightarrow> nat \<Rightarrow> Connection" where
  "Connection_new dns fd w =
     \<lparr>conn_fd = fd, conn_id = 0, id_assigned = False, conn_addr = [], conn_name = [],
      conn_ns = dns, conn_flags = {}, idle_time = 0, conn_output = [], bev_events = {},
      owner = w\<rparr>"

definition SetID :: "ptr \<Rightarrow> 64 word \<Rightarrow> world \<Rightarrow> world" where
  "SetID p i s = upd_conn p (\<lambda>c. c\<lparr>conn_id := i, id_assigned := True\<rparr>) s"

definition SetAddr :: "ptr \<Rightarrow> string \<Rightarrow> world \<Rightarrow> world" where
  "SetAddr p a s = upd_conn p (\<lambda>c. c\<lparr>conn_addr := a\<rparr>) s"

definition EnableFlag :: "ptr \<Rightarrow> Flag \<Rightarrow> world \<Rightarrow> world" where
  "EnableFlag p f s = upd_conn p (\<lambda>c. c\<lparr>conn_flags := insert f (conn_flags c)\<rparr>) s"

definition bufferevent_enable :: "ptr \<Rightarrow> Event \<Rightarrow> world \<Rightarrow> world" where
  "bufferevent_enable p e s = upd_conn p (\<lambda>c. c\<lparr>bev_events := insert e (bev_events c)\<rparr>) s"

text \<open>
  Modelled from the spec: \<open>Redis::Reply(evbuffer*, data)\<close> (redis_reply.h is not among the
  sources) appends the bytes to the output buffer.
\<close>

definition Redis_Reply :: "ptr \<Rightarrow> string \<Rightarrow> world \<Rightarrow> world" where
  "Redis_Reply p data s = upd_conn p (\<lambda>c. c\<lparr>conn_output := conn_output c @ data\<rparr>) s"

text \<open>
  Modelled from the spec: \<open>Connection::Reply\<close> (the spec's \<open>write_reply\<close>: "append to
  output_buffer; ensure the writable event is armed").
\<close>

definition Connection_Reply :: "ptr \<Rightarrow> string \<Rightarrow> world \<Rightarrow> world" where
  "Connection_Reply p data s = bufferevent_enable p EV_WRITE (Redis_Reply p data s)"

text \<open>Carriage return and line feed, the end of every RESP line.\<close>

definition CRLF :: string where
  "CRLF = [char_of (13::nat), char_of (10::nat)]"

text \<open>Modelled from the spec: the RESP encodings \<open>-ERR ...\r\n\<close> and \<open>+...\r\n\<close>.\<close>

definition Redis_Error :: "string \<Rightarrow> string" where
  "Redis_Error e = ''-'' @ e @ CRLF"

definition SimpleString :: "string \<Rightarrow> string" where
  "SimpleString d = ''+'' @ d @ CRLF"

subsection \<open>std::to_string on integers\<close>

definition digit_char :: "nat \<Rightarrow> char" where
  "digit_char d = char_of (48 + d)"

fun digits :: "nat \<Rightarrow> string" where
  "digits n = (if n < 10 then [digit_char n] else digits (n div 10) @ [digit_char (n mod 10)])"

declare digits.simps [simp del]

definition to_string :: "int \<Rightarrow> string" where
  "to_string i = (if i < 0 then ''-'' @ digits (nat (- i)) else digits (nat i))"

section \<open>The operations of Worker (worker.cc)\<close>

text \<open>
  Every operation takes the index \<open>w\<close> of the Worker it runs on (\<open>this\<close>) and the state of
  the process, and returns the new state. Each one runs with the Worker's table lock
  \<open>conns_mu_\<close> held from its first access of a table to its last, so it is one step.
\<close>

definition AddConnection :: "nat \<Rightarrow> ptr \<Rightarrow> world \<Rightarrow> Status \<times> world" where
  "AddConnection w c s =
     (case map_find (conns (workers s w)) (conn_fd (store s c)) of
        Some _ \<Rightarrow> (NotOK ''connection was exists'', s)
      | None \<Rightarrow>
          (let max_clients = maxclients (config (svr s)) in
           case IncrClientNum s of
             (n, s1) \<Rightarrow>
               if n \<ge> max_clients
               then (NotOK ''max number of clients reached'', DecrClientNum s1)
               else
                 (let s2 = upd_worker w
                        (\<lambda>k. k\<lparr>conns := map_insert (conn_fd (store s1 c)) c (conns k)\<rparr>) s1
                  in case fetch_add_client_id s2 of
                       (i, s3) \<Rightarrow> (OK, SetID c i s3))))"

definition RemoveConnection :: "nat \<Rightarrow> int \<Rightarrow> world \<Rightarrow> world" where
  "RemoveConnection w fd s =
     (let s1 = (case map_find (conns (workers s w)) fd of
                  Some p \<Rightarrow>
                    DecrClientNum
                      (upd_worker w (\<lambda>k. k\<lparr>conns := map_erase fd (conns k)\<rparr>) (delete_conn p s))
                | None \<Rightarrow> s)
      in case map_find (monitor_conns (workers s1 w)) fd of
           Some p \<Rightarrow>
             DecrMonitorClientNum
               (DecrClientNum
                 (upd_worker w (\<lambda>k. k\<lparr>monitor_conns := map_erase fd (monitor_conns k)\<rparr>)
                   (delete_conn p s1)))
         | None \<Rightarrow> s1)"

definition RemoveConnectionByID :: "nat \<Rightarrow> int \<Rightarrow> 64 word \<Rightarrow> world \<Rightarrow> world" where
  "RemoveConnectionByID w fd i s =
     (let s1 = (case map_find (conns (workers s w)) fd of
                  Some p \<Rightarrow>
                    if conn_id (store s p) = i
                    then DecrClientNum
                      (upd_worker w (\<lambda>k. k\<lparr>conns := map_erase fd (conns k)\<rparr>) (delete_conn p s))
                    else s
                | None \<Rightarrow> s)
      in case map_find (monitor_conns (workers s1 w)) fd of
           Some p \<Rightarrow>
             if conn_id (store s1 p) = i
             then DecrMonitorClientNum
               (DecrClientNum
                 (upd_worker w (\<lambda>k. k\<lparr>monitor_conns := map_erase fd (monitor_conns k)\<rparr>)
                   (delete_conn p s1)))
             else s1
         | None \<Rightarrow> s1)"

definition EnableWriteEvent :: "nat \<Rightarrow> int \<Rightarrow> world \<Rightarrow> Status \<times> world" where
  "EnableWriteEvent w fd s =
     (case map_find (conns (workers s w)) fd of
        Some p \<Rightarrow> (OK, bufferevent_enable p EV_WRITE s)
      | None \<Rightarrow> (NotOK [], s))"

definition Reply :: "nat \<Rightarrow> int \<Rightarrow> string \<Rightarrow> world \<Rightarrow> Status \<times> world" where
  "Reply w fd reply s =
     (case map_find (conns (workers s w)) fd of
        Some p \<Rightarrow> (OK, Redis_Reply p reply s)
      | None \<Rightarrow> (NotOK (''connection doesn'' @ [char_of (39::nat)] @ ''t exist''), s))"

definition BecomeMonitorConn :: "nat \<Rightarrow> ptr \<Rightarrow> world \<Rightarrow> world" where
  "BecomeMonitorConn w conn s =
     (let fd = conn_fd (store s conn);
          s1 = upd_worker w (\<lambda>k. k\<lparr>conns := map_erase fd (conns k)\<rparr>) s;
          s2 = upd_worker w (\<lambda>k. k\<lparr>monitor_conns := map_put fd conn (monitor_conns k)\<rparr>) s1
      in EnableFlag conn kMonitor (IncrMonitorClientNum s2))"

text \<open>
  \<open>FeedMonitorConns\<close>: the line is composed first, from the time of day
  (\<open>tv_sec\<close>, \<open>tv_usec\<close>, read from the clock) and the source's address; then the monitor
  table is walked. \<open>dns\<close> is \<open>kDefaultNamespace\<close>.
\<close>

definition feed_line :: "int \<Rightarrow> int \<Rightarrow> string \<Rightarrow> string list \<Rightarrow> string" where
  "feed_line tv_sec tv_usec a tokens =
     to_string tv_sec @ ''.'' @ to_string tv_usec @ '' [0 '' @ a @ '']''
       @ concat (map (\<lambda>token. [CHR '' '', char_of (34::nat)] @ token @ [char_of (34::nat)]) tokens)"

definition feed_one :: "string \<Rightarrow> ptr \<Rightarrow> string \<Rightarrow> int \<times> ptr \<Rightarrow> world \<Rightarrow> world" where
  "feed_one dns conn out e s =
     (if conn = snd e then s
      else if conn_ns (store s conn) = conn_ns (store s (snd e)) \<or> conn_ns (store s (snd e)) = dns
      then Connection_Reply (snd e) (SimpleString out) s
      else s)"

definition FeedMonitorConns ::
  "string \<Rightarrow> int \<Rightarrow> int \<Rightarrow> nat \<Rightarrow> ptr \<Rightarrow> string list \<Rightarrow> world \<Rightarrow> world" where
  "FeedMonitorConns dns tv_sec tv_usec w conn tokens s =
     (let out = feed_line tv_sec tv_usec (conn_addr (store s conn)) tokens
      in fold (feed_one dns conn out) (monitor_conns (workers s w)) s)"

text \<open>\<open>KillClient\<close>: the counter \<open>*killed\<close> goes in and comes out with the state.\<close>

definition kill_match :: "64 word \<Rightarrow> string \<Rightarrow> Connection \<Rightarrow> bool" where
  "kill_match i a c \<longleftrightarrow> (a \<noteq> [] \<and> conn_addr c = a) \<or> (i \<noteq> 0 \<and> conn_id c = i)"

definition kill_one ::
  "ptr \<Rightarrow> 64 word \<Rightarrow> string \<Rightarrow> bool \<Rightarrow> int \<times> ptr \<Rightarrow> int \<times> world \<Rightarrow> int \<times> world" where
  "kill_one self i a skipme e ks =
     (let conn = snd e in
      if skipme \<and> self = conn then ks
      else if kill_match i a (store (snd ks) conn)
      then (fst ks + 1,
            bufferevent_enable conn EV_WRITE (EnableFlag conn kCloseAfterReply (snd ks)))
      else ks)"

definition KillClient ::
  "nat \<Rightarrow> ptr \<Rightarrow> 64 word \<Rightarrow> string \<Rightarrow> bool \<Rightarrow> int \<Rightarrow> world \<Rightarrow> int \<times> world" where
  "KillClient w self i a skipme killed s =
     fold (kill_one self i a skipme) (conns (workers s w)) (killed, s)"

text \<open>
  \<open>KickoutIdleClients\<close>. \<open>static_cast<int>\<close> of the unsigned 64-bit idle time keeps its
  low 32 bits, read as a signed number. The loop \<open>while (iterations--)\<close> is \<open>kick_scan\<close>:
  the iterator is a position in the table (\<open>end()\<close> is its length), the counter is the
  recursion argument. The table is not empty when the loop runs and the position is at most
  the length, so \<open>cs ! i\<close> is read in range (see \<open>kick_scan_visits\<close>).
\<close>

definition static_cast_int :: "64 word \<Rightarrow> int" where
  "static_cast_int x = sint (ucast x :: 32 word)"

fun kick_scan ::
  "(ptr \<Rightarrow> Connection) \<Rightarrow> int \<Rightarrow> conn_map \<Rightarrow> nat \<Rightarrow> nat \<Rightarrow> (int \<times> 64 word) list
     \<Rightarrow> nat \<times> (int \<times> 64 word) list" where
  "kick_scan st tmo cs 0 i acc = (i, acc)"
| "kick_scan st tmo cs (Suc n) i acc =
     (let j = (if i = length cs then 0 else i);
          acc' = (if static_cast_int (idle_time (st (snd (cs ! j)))) \<ge> tmo
                  then acc @ [(fst (cs ! j), conn_id (st (snd (cs ! j))))]
                  else acc)
      in kick_scan st tmo cs n (j + 1) acc')"

definition KickoutIdleClients :: "nat \<Rightarrow> int \<Rightarrow> world \<Rightarrow> world" where
  "KickoutIdleClients w tmo s =
     (let cs = conns (workers s w) in
      if cs = [] then s
      else
        (let iterations = min (length cs) 50;
             start = upper_bound cs (last_iter_conn_fd (workers s w))
         in case kick_scan (store s) tmo cs iterations start [] of
              (i, to_be_killed_conns) \<Rightarrow>
                fold (\<lambda>conn. RemoveConnectionByID w (fst conn) (snd conn)) to_be_killed_conns
                  (upd_worker w (\<lambda>k. k\<lparr>last_iter_conn_fd := fst (cs ! (i - 1))\<rparr>) s)))"

definition TimerCB :: "nat \<Rightarrow> world \<Rightarrow> world" where
  "TimerCB w s =
     (if timeout (config (svr s)) = 0 then s
      else KickoutIdleClients w (timeout (config (svr s))) s)"

text \<open>
  \<open>newConnection\<close>, the accept callback. From the environment: the accepted socket \<open>fd\<close>,
  whether \<open>setsockopt\<close> succeeded, the address \<open>p\<close> that \<open>new\<close> returns, and what
  \<open>Util::GetPeerAddr\<close> finds (a host and a port, or nothing).
\<close>

definition newConnection ::
  "string \<Rightarrow> nat \<Rightarrow> int \<Rightarrow> bool \<Rightarrow> ptr \<Rightarrow> (string \<times> nat) option \<Rightarrow> world \<Rightarrow> world" where
  "newConnection dns w fd keepalive_ok p peer s =
     (if \<not> keepalive_ok then s\<lparr>sock_log := sock_log s @ [Closed fd]\<rparr>
      else
        (let s1 = s\<lparr>store := (store s)(p := Connection_new dns fd w), alloc := insert p (alloc s)\<rparr>;
             s2 = bufferevent_enable p EV_READ s1
         in case AddConnection w p s2 of
              (status, s3) \<Rightarrow>
                (let s4 = (case peer of
                             Some (host, port) \<Rightarrow> SetAddr p (host @ '':'' @ to_string (int port)) s3
                           | None \<Rightarrow> s3)
                 in if \<not> IsOK status
                    then RemoveConnection w (conn_fd (store s4 p))
                           (s4\<lparr>sock_log := sock_log s4
                                 @ [Wrote fd (Redis_Error (''ERR '' @ Msg status))]\<rparr>)
                    else s4)))"

section \<open>Executions\<close>

text \<open>
  The entry points of a Worker, as the steps of an execution: the accept callback
  (\<open>newConnection\<close>), the timer callback, and the public operations that the command
  handlers and the Connections call. \<open>Kill\<close> starts its counter at 0.
\<close>

datatype op =
    Accept int bool ptr "(string \<times> nat) option"
  | Admit ptr
  | Remove int
  | RemoveByID int "64 word"
  | EnableWrite int
  | SendReply int string
  | Promote ptr
  | Feed int int ptr "string list"
  | Kill ptr "64 word" string bool
  | Timer

fun exec :: "string \<Rightarrow> nat \<Rightarrow> op \<Rightarrow> world \<Rightarrow> world" where
  "exec dns w (Accept fd keepalive_ok p peer) s = newConnection dns w fd keepalive_ok p peer s"
| "exec dns w (Admit c) s = snd (AddConnection w c s)"
| "exec dns w (Remove fd) s = RemoveConnection w fd s"
| "exec dns w (RemoveByID fd i) s = RemoveConnectionByID w fd i s"
| "exec dns w (EnableWrite fd) s = snd (EnableWriteEvent w fd s)"
| "exec dns w (SendReply fd bytes) s = snd (Reply w fd bytes s)"
| "exec dns w (Promote c) s = BecomeMonitorConn w c s"
| "exec dns w (Feed tv_sec tv_usec src tokens) s = FeedMonitorConns dns tv_sec tv_usec w src tokens s"
| "exec dns w (Kill self i a skipme) s = snd (KillClient w self i a skipme 0 s)"
| "exec dns w Timer s = TimerCB w s"

text \<open>
  What the callers guarantee. \<open>new\<close> returns an address that holds no live object, and the
  kernel hands out no descriptor that is still open, so none that a monitor of this Worker
  is on (for a descriptor of the normal table \<open>AddConnection\<close> has its own test).
  \<open>AddConnection\<close> is given a constructed Connection of this Worker. \<open>BecomeMonitorConn\<close> is
  called by the command handler on the Connection that sent the command, which is in one of the
  Worker's tables under its own descriptor.
\<close>

fun op_ok :: "nat \<Rightarrow> op \<Rightarrow> world \<Rightarrow> bool" where
  "op_ok w (Accept fd keepalive_ok p peer) s \<longleftrightarrow>
     p \<notin> alloc s \<and> map_find (monitor_conns (workers s w)) fd = None"
| "op_ok w (Admit c) s \<longleftrightarrow>
     c \<in> alloc s \<and> owner (store s c) = w
     \<and> map_find (monitor_conns (workers s w)) (conn_fd (store s c)) = None"
| "op_ok w (Promote c) s \<longleftrightarrow>
     map_find (conns (workers s w)) (conn_fd (store s c)) = Some c
     \<or> map_find (monitor_conns (workers s w)) (conn_fd (store s c)) = Some c"
| "op_ok w _ s \<longleftrightarrow> True"

fun run :: "string \<Rightarrow> (nat \<times> op) list \<Rightarrow> world \<Rightarrow> world" where
  "run dns [] s = s"
| "run dns (e # evs) s = run dns evs (exec dns (fst e) (snd e) s)"

fun valid_run :: "string \<Rightarrow> (nat \<times> op) list \<Rightarrow> world \<Rightarrow> bool" where
  "valid_run dns [] s \<longleftrightarrow> True"
| "valid_run dns (e # evs) s \<longleftrightarrow>
     op_ok (fst e) (snd e) s \<and> valid_run dns evs (exec dns (fst e) (snd e) s)"

text \<open>
  The id that a step gives out: the id of the Connection that the accept callback has put
  into the normal table, or that \<open>AddConnection\<close> has admitted. \<open>run_ids\<close> lists the ids
  given out in an execution, in order.
\<close>

definition admitted_id :: "string \<Rightarrow> nat \<Rightarrow> op \<Rightarrow> world \<Rightarrow> 64 word list" where
  "admitted_id dns w a s =
     (case a of
        Accept fd keepalive_ok p peer \<Rightarrow>
          (if map_find (conns (workers (exec dns w a s) w)) fd = Some p
           then [conn_id (store (exec dns w a s) p)] else [])
      | Admit c \<Rightarrow>
          (if fst (AddConnection w c s) = OK then [conn_id (store (exec dns w a s) c)] else [])
      | _ \<Rightarrow> [])"

fun run_ids :: "string \<Rightarrow> (nat \<times> op) list \<Rightarrow> world \<Rightarrow> 64 word list" where
  "run_ids dns [] s = []"
| "run_ids dns (e # evs) s =
     admitted_id dns (fst e) (snd e) s @ run_ids dns evs (exec dns (fst e) (snd e) s)"

section \<open>Predicates used in the statements\<close>

text \<open>What \<open>KillClient\<close> does to a Connection it kills: the flag \<open>kCloseAfterReply\<close> is set
  and the write event of its bufferevent is enabled.\<close>

definition flag_kill :: "Connection \<Rightarrow> Connection" where
  "flag_kill c = c\<lparr>conn_flags := insert kCloseAfterReply (conn_flags c),
                   bev_events := insert EV_WRITE (bev_events c)\<rparr>"

text \<open>The entries that a kill request with the id \<open>i\<close> and the address \<open>a\<close> is aimed at, in
  the words of the request and not of the code's test: the entry is not the caller when
  \<open>skipme\<close> is set, and its Connection has the requested id or the requested address.
  The id 0 and the empty address stand for "no id given" and "no address given".\<close>

definition kill_hit :: "world \<Rightarrow> ptr \<Rightarrow> 64 word \<Rightarrow> string \<Rightarrow> bool \<Rightarrow> int \<times> ptr \<Rightarrow> bool" where
  "kill_hit s self i a skipme e \<longleftrightarrow>
     \<not> (skipme \<and> self = snd e)
     \<and> ((i \<noteq> 0 \<and> conn_id (store s (snd e)) = i)
        \<or> (a \<noteq> [] \<and> conn_addr (store s (snd e)) = a))"

text \<open>What \<open>FeedMonitorConns\<close> does to a monitor it feeds: \<open>Connection::Reply\<close> with the
  line as a RESP simple string.\<close>

definition receive :: "string \<Rightarrow> Connection \<Rightarrow> Connection" where
  "receive line c = c\<lparr>conn_output := conn_output c @ SimpleString line,
                       bev_events := insert EV_WRITE (bev_events c)\<rparr>"

text \<open>The monitors a feed from \<open>src\<close> is meant for: not the source itself, and in the
  source's namespace or in the default namespace \<open>dns\<close>.\<close>

definition feed_hit :: "world \<Rightarrow> string \<Rightarrow> ptr \<Rightarrow> ptr \<Rightarrow> bool" where
  "feed_hit s dns src m \<longleftrightarrow>
     m \<noteq> src \<and> (conn_ns (store s m) = conn_ns (store s src) \<or> conn_ns (store s m) = dns)"

text \<open>The order in which the idle scan walks a table from the cursor \<open>cur\<close>: the entries
  with a descriptor above the cursor, then from the beginning the others.\<close>

definition scan_order :: "int \<Rightarrow> conn_map \<Rightarrow> conn_map" where
  "scan_order cur cs = filter (\<lambda>e. cur < fst e) cs @ filter (\<lambda>e. fst e \<le> cur) cs"

text \<open>An unsigned 64-bit number of seconds read as a 32-bit \<open>int\<close>: its low 32 bits, in
  two's complement. Below \<open>2^31\<close> that is the number itself.\<close>

definition low32_signed :: "64 word \<Rightarrow> int" where
  "low32_signed x =
     (let r = uint x mod 4294967296 in if r < 2147483648 then r else r - 4294967296)"

text \<open>The pairs (descriptor, id) of the entries whose idle time, read as a 32-bit \<open>int\<close>, is
  at least the timeout.\<close>

definition idle_pairs :: "(ptr \<Rightarrow> Connection) \<Rightarrow> int \<Rightarrow> conn_map \<Rightarrow> (int \<times> 64 word) list" where
  "idle_pairs st tmo xs =
     map (\<lambda>e. (fst e, conn_id (st (snd e))))
       (filter (\<lambda>e. tmo \<le> low32_signed (idle_time (st (snd e)))) xs)"

text \<open>
  The state of a Worker's tables that every step keeps: both tables are in key order, no
  descriptor is a key of both, and every entry leads to an allocated Connection of this
  Worker that is on the entry's descriptor and has its id.
\<close>

definition entry_ok :: "world \<Rightarrow> nat \<Rightarrow> int \<times> ptr \<Rightarrow> bool" where
  "entry_ok s w e \<longleftrightarrow>
     snd e \<in> alloc s \<and> conn_fd (store s (snd e)) = fst e
     \<and> owner (store s (snd e)) = w \<and> id_assigned (store s (snd e))"

definition worker_inv :: "world \<Rightarrow> nat \<Rightarrow> bool" where
  "worker_inv s w \<longleftrightarrow>
     sorted_wrt (<) (map fst (conns (workers s w)))
     \<and> sorted_wrt (<) (map fst (monitor_conns (workers s w)))
     \<and> fst ` set (conns (workers s w)) \<inter> fst ` set (monitor_conns (workers s w)) = {}
     \<and> list_all (entry_ok s w) (conns (workers s w))
     \<and> list_all (entry_ok s w) (monitor_conns (workers s w))"

text \<open>Updates of a Connection that leave its descriptor, owner and id flag alone.\<close>

definition keeps_identity :: "(Connection \<Rightarrow> Connection) \<Rightarrow> bool" where
  "keeps_identity f \<longleftrightarrow>
     (\<forall>c. conn_fd (f c) = conn_fd c \<and> owner (f c) = owner c \<and> id_assigned (f c) = id_assigned c)"

text \<open>
  The Connections in the tables of Worker \<open>v\<close>. Exclusivity: a Connection stands once in
  the two tables of a Worker together, it is allocated, and the Worker is its owner.
  \<open>removed_destroyed s s'\<close>: a Connection that was in a table in \<open>s\<close> and is in none in \<open>s'\<close>
  is deleted in \<open>s'\<close>.
\<close>

definition table_ptrs :: "world \<Rightarrow> nat \<Rightarrow> ptr set" where
  "table_ptrs s v = snd ` set (conns (workers s v)) \<union> snd ` set (monitor_conns (workers s v))"

definition exclusive :: "world \<Rightarrow> bool" where
  "exclusive s \<longleftrightarrow>
     (\<forall>v. distinct (map snd (conns (workers s v) @ monitor_conns (workers s v)))
          \<and> table_ptrs s v \<subseteq> alloc s
          \<and> (\<forall>p \<in> table_ptrs s v. owner (store s p) = v))"

definition removed_destroyed :: "world \<Rightarrow> world \<Rightarrow> bool" where
  "removed_destroyed s s' \<longleftrightarrow>
     (\<forall>v p. p \<in> table_ptrs s v \<and> p \<notin> table_ptrs s' v \<longrightarrow> p \<notin> alloc s')"

text \<open>The values that a 64-bit counter standing at \<open>n\<close> gives out in \<open>k\<close> draws.\<close>

definition counter_values :: "64 word \<Rightarrow> nat \<Rightarrow> 64 word list" where
  "counter_values n k = map (\<lambda>j. n + of_nat j) [0..<k]"

text \<open>
  The number of Connections in the tables of the Workers \<open>W\<close>.
  \<open>slack\<close> is what the server's count of clients is ahead of it; \<open>capped\<close> says that the
  count of clients is within the configured cap; \<open>svr_step\<close> relates a state to a later one
  with the same configuration and no more clients counted.
\<close>

definition table_count :: "nat set \<Rightarrow> world \<Rightarrow> int" where
  "table_count W s =
     (\<Sum>v\<in>W. int (length (conns (workers s v))) + int (length (monitor_conns (workers s v))))"

definition slack :: "nat set \<Rightarrow> world \<Rightarrow> int" where
  "slack W s = client_count (svr s) - table_count W s"

definition capped :: "world \<Rightarrow> bool" where
  "capped s \<longleftrightarrow> client_count (svr s) \<le> maxclients (config (svr s))"

definition svr_step :: "world \<Rightarrow> world \<Rightarrow> bool" where
  "svr_step s s' \<longleftrightarrow>
     config (svr s') = config (svr s)
     \<and> client_count (svr s') \<le> client_count (svr s)"

section \<open>Sample states\<close>

text \<open>States on which the theorems below are run: a Worker 0 with two clients and three
  monitors, and a server whose only slot is taken.\<close>

definition empty_worker :: Worker where
  "empty_worker = \<lparr>conns = [], monitor_conns = [], last_iter_conn_fd = 0\<rparr>"

definition sample_conn :: "int \<Rightarrow> 64 word \<Rightarrow> string \<Rightarrow> string \<Rightarrow> 64 word \<Rightarrow> Connection" where
  "sample_conn fd i a n idle =
     (Connection_new n fd 0)\<lparr>conn_id := i, id_assigned := True, conn_addr := a, idle_time := idle\<rparr>"

definition sample_world :: world where
  "sample_world =
     \<lparr>svr = \<lparr>config = \<lparr>maxclients = 10, timeout = 30\<rparr>, next_id = 6,
              client_count = 5, monitor_count = 3\<rparr>,
      store = (\<lambda>_. Connection_new [] 0 0)
                (10 := sample_conn 3 1 ''1.2.3.4:5'' ''ns1'' 40,
                 11 := sample_conn 7 2 ''1.2.3.4:6'' ''ns2'' 5,
                 12 := (sample_conn 5 3 ''1.2.3.4:7'' ''ns1'' 0)\<lparr>conn_flags := {kMonitor}\<rparr>,
                 13 := (sample_conn 9 4 ''1.2.3.4:8'' ''dflt'' 0)\<lparr>conn_flags := {kMonitor}\<rparr>,
                 14 := (sample_conn 15 5 ''1.2.3.4:9'' ''ns2'' 0)\<lparr>conn_flags := {kMonitor}\<rparr>),
      alloc = {10, 11, 12, 13, 14},
      workers = (\<lambda>_. empty_worker)
                  (0 := \<lparr>conns = [(3, 10), (7, 11)],
                         monitor_conns = [(5, 12), (9, 13), (15, 14)],
                         last_iter_conn_fd = 3\<rparr>),
      sock_log = []\<rparr>"

definition full_world :: world where
  "full_world =
     \<lparr>svr = \<lparr>config = \<lparr>maxclients = 1, timeout = 0\<rparr>, next_id = 2,
              client_count = 1, monitor_count = 0\<rparr>,
      store = (\<lambda>_. Connection_new [] 0 0)(100 := sample_conn 4 1 ''10.0.0.1:4000'' ''dflt'' 0),
      alloc = {100},
      workers = (\<lambda>_. empty_worker)(0 := empty_worker\<lparr>conns := [(4, 100)]\<rparr>),
      sock_log = []\<rparr>"

text \<open>The sample state with one more Connection, constructed on descriptor 20 and not yet
  admitted; and an execution from it.\<close>

definition pending_world :: world where
  "pending_world =
     sample_world\<lparr>store := (store sample_world)(15 := Connection_new ''dflt'' 20 0),
                  alloc := insert 15 (alloc sample_world)\<rparr>"

definition demo_run :: "(nat \<times> op) list" where
  "demo_run =
     [(0, Admit 15), (0, Promote 15), (0, Accept 30 True 16 None),
      (1, Accept 31 True 17 (Some (''10.0.0.9'', 5000))), (0, Remove 7)]"

text \<open>Three more clients come to the full server, two to Worker 0 and one to Worker 1.\<close>

definition flood_run :: "(nat \<times> op) list" where
  "flood_run =
     [(0, Accept 5 True 101 (Some (''10.0.0.2'', 4000))),
      (0, Accept 6 True 102 (Some (''10.0.0.3'', 4000))),
      (1, Accept 8 True 103 (Some (''10.0.0.4'', 4000)))]"

text \<open>The sample state after client 10 has been idle for \<open>2^31\<close> seconds.\<close>

definition stale_world :: world where
  "stale_world =
     sample_world\<lparr>store := (store sample_world)
       (10 := (store sample_world 10)\<lparr>idle_time := 2147483648\<rparr>)\<rparr>"

text \<open>The full server with a second Connection constructed on descriptor 5; and a server
  without clients whose id counter stands at its last value \<open>2^64 - 1\<close>, with two accepts.\<close>

definition crowded_world :: world where
  "crowded_world =
     full_world\<lparr>store := (store full_world)(101 := Connection_new ''dflt'' 5 0),
                alloc := insert 101 (alloc full_world)\<rparr>"

definition wrap_world :: world where
  "wrap_world =
     \<lparr>svr = \<lparr>config = \<lparr>maxclients = 10, timeout = 0\<rparr>, next_id = 18446744073709551615,
              client_count = 0, monitor_count = 0\<rparr>,
      store = (\<lambda>_. Connection_new [] 0 0),
      alloc = {},
      workers = (\<lambda>_. empty_worker),
      sock_log = []\<rparr>"

definition wrap_run :: "(nat \<times> op) list" where
  "wrap_run = [(0, Accept 5 True 100 None), (0, Accept 6 True 101 None)]"

section \<open>KillClient\<close>

lemma kill_match_flag_kill [simp]: "kill_match i a (flag_kill c) = kill_match i a c"
  by (simp add: kill_match_def flag_kill_def)

lemma flag_kill_idem [simp]: "flag_kill (flag_kill c) = flag_kill c"
  by (simp add: flag_kill_def)

lemma kill_one_eq:
  "kill_one self i a skipme e (k, s) =
     (if kill_hit s self i a skipme e
      then (k + 1, s\<lparr>store := (store s)(snd e := flag_kill (store s (snd e)))\<rparr>)
      else (k, s))"
  by (auto simp: kill_one_def kill_hit_def kill_match_def Let_def bufferevent_enable_def
      EnableFlag_def upd_conn_def flag_kill_def)

lemma fold_kill_one:
  "fold (kill_one self i a skipme) xs (k, s) =
     (k + int (length (filter (kill_hit s self i a skipme) xs)),
      s\<lparr>store := (\<lambda>p. if p \<in> snd ` set (filter (kill_hit s self i a skipme) xs)
                        then flag_kill (store s p) else store s p)\<rparr>)"
proof (induction xs arbitrary: k s)
  case Nil
  show ?case by simp
next
  case (Cons e xs)
  show ?case
  proof (cases "kill_hit s self i a skipme e")
    case False
    then show ?thesis by (simp add: kill_one_eq Cons.IH)
  next
    case True
    let ?s1 = "s\<lparr>store := (store s)(snd e := flag_kill (store s (snd e)))\<rparr>"
    have same: "kill_hit ?s1 self i a skipme = kill_hit s self i a skipme"
      by (rule ext) (simp add: kill_hit_def flag_kill_def)
    show ?thesis
      using True by (simp add: kill_one_eq Cons.IH same) (auto simp: fun_eq_iff)
  qed
qed

text \<open>
  Claim C6. \<open>KillClient\<close> adds to the counter the number of entries of the normal table
  whose Connection has the requested id or the requested address (the caller left out when
  \<open>skipme\<close> is set); exactly the Connections of these entries get \<open>kCloseAfterReply\<close> set and
  the write event enabled, and nothing else of the state changes. With \<open>skipme\<close> set the
  caller's own Connection is left as it was.
\<close>

theorem KillClient_flags_exactly_the_matches:
  "KillClient w self i a skipme killed s =
     (killed + int (length (filter (kill_hit s self i a skipme) (conns (workers s w)))),
      s\<lparr>store := (\<lambda>p. if p \<in> snd ` set (filter (kill_hit s self i a skipme) (conns (workers s w)))
                        then flag_kill (store s p) else store s p)\<rparr>)
   \<and> store (snd (KillClient w self i a True killed s)) self = store s self"
  by (auto simp: KillClient_def fold_kill_one kill_hit_def)

text \<open>On the sample state, the request coming from client 11: the id 1 is client 10's and
  the address 1.2.3.4:6 is client 11's own, so both are hit, and client 11 is not when
  \<open>skipme\<close> is set; with an address that nobody has, client 10 alone is hit, by its id;
  the id 3 and the address 1.2.3.4:8 belong to monitors, which are not in the normal
  table, and nothing is hit.\<close>

theorem KillClient_flags_exactly_the_matches_witness:
  "fst (KillClient 0 11 1 ''1.2.3.4:6'' False 0 sample_world) = 2
   \<and> store (snd (KillClient 0 11 1 ''1.2.3.4:6'' False 0 sample_world)) 10
       = flag_kill (store sample_world 10)
   \<and> store (snd (KillClient 0 11 1 ''1.2.3.4:6'' False 0 sample_world)) 11
       = flag_kill (store sample_world 11)
   \<and> store (snd (KillClient 0 11 1 ''1.2.3.4:6'' False 0 sample_world)) 12
       = store sample_world 12
   \<and> fst (KillClient 0 11 1 ''1.2.3.4:6'' True 0 sample_world) = 1
   \<and> kCloseAfterReply \<in> conn_flags (store (snd (KillClient 0 11 1 ''1.2.3.4:6'' True 0 sample_world)) 10)
   \<and> EV_WRITE \<in> bev_events (store (snd (KillClient 0 11 1 ''1.2.3.4:6'' True 0 sample_world)) 10)
   \<and> store (snd (KillClient 0 11 1 ''1.2.3.4:6'' True 0 sample_world)) 11 = store sample_world 11
   \<and> fst (KillClient 0 11 1 ''10.9.9.9:1'' False 7 sample_world) = 8
   \<and> store (snd (KillClient 0 11 1 ''10.9.9.9:1'' False 7 sample_world)) 11 = store sample_world 11
   \<and> fst (KillClient 0 11 3 ''1.2.3.4:8'' False 0 sample_world) = 0
   \<and> store (snd (KillClient 0 11 3 ''1.2.3.4:8'' False 0 sample_world)) = store sample_world"
proof -
  have h:
    "filter (kill_hit sample_world 11 1 ''1.2.3.4:6'' False) (conns (workers sample_world 0))
       = [(3, 10), (7, 11)]"
    "filter (kill_hit sample_world 11 1 ''1.2.3.4:6'' True) (conns (workers sample_world 0))
       = [(3, 10)]"
    "filter (kill_hit sample_world 11 1 ''10.9.9.9:1'' False) (conns (workers sample_world 0))
       = [(3, 10)]"
    "filter (kill_hit sample_world 11 3 ''1.2.3.4:8'' False) (conns (workers sample_world 0))
       = []"
    by (simp_all add: kill_hit_def sample_world_def sample_conn_def Connection_new_def)
  show ?thesis
    using KillClient_flags_exactly_the_matches [of 0 11 1 "''1.2.3.4:6''" False 0 sample_world]
      KillClient_flags_exactly_the_matches [of 0 11 1 "''1.2.3.4:6''" True 0 sample_world]
      KillClient_flags_exactly_the_matches [of 0 11 1 "''10.9.9.9:1''" False 7 sample_world]
      KillClient_flags_exactly_the_matches [of 0 11 3 "''1.2.3.4:8''" False 0 sample_world]
    unfolding h by (simp add: flag_kill_def)
qed

text \<open>
  Claim C10. The test of \<open>KillClient\<close> matches by id only when the requested id is not 0,
  and by address only when the requested address is not empty; so a call with id 0 and an
  empty address returns the counter and the state as they were.
\<close>

theorem KillClient_zero_id_empty_addr:
  "(kill_match 0 a c \<longleftrightarrow> a \<noteq> [] \<and> conn_addr c = a)
   \<and> (kill_match i [] c \<longleftrightarrow> i \<noteq> 0 \<and> conn_id c = i)
   \<and> KillClient w self 0 [] skipme killed s = (killed, s)"
  by (simp add: KillClient_def fold_kill_one kill_hit_def kill_match_def)

section \<open>FeedMonitorConns\<close>

lemma feed_one_eq:
  "feed_one dns src out e s =
     (if feed_hit s dns src (snd e)
      then s\<lparr>store := (store s)(snd e := receive out (store s (snd e)))\<rparr>
      else s)"
  by (auto simp: feed_one_def feed_hit_def Connection_Reply_def Redis_Reply_def
      bufferevent_enable_def upd_conn_def receive_def)

lemma feed_hit_after:
  "q \<noteq> m \<Longrightarrow> feed_hit s dns src q \<Longrightarrow>
   feed_hit (s\<lparr>store := (store s)(q := receive out (store s q))\<rparr>) dns src m = feed_hit s dns src m"
  by (auto simp: feed_hit_def receive_def)

lemma fold_feed_one:
  "distinct (map snd xs) \<Longrightarrow>
   fold (feed_one dns src out) xs s =
     s\<lparr>store := (\<lambda>p. if p \<in> snd ` set xs \<and> feed_hit s dns src p
                       then receive out (store s p) else store s p)\<rparr>"
proof (induction xs arbitrary: s)
  case Nil
  show ?case by simp
next
  case (Cons e xs)
  have d: "distinct (map snd xs)" and notin: "snd e \<notin> snd ` set xs"
    using Cons.prems by auto
  show ?case
  proof (cases "feed_hit s dns src (snd e)")
    case False
    then have step: "feed_one dns src out e s = s"
      by (simp add: feed_one_eq)
    have "fold (feed_one dns src out) (e # xs) s = fold (feed_one dns src out) xs s"
      by (simp add: step)
    also note Cons.IH [OF d]
    finally show ?thesis
      using False by (auto simp: fun_eq_iff intro!: arg_cong [where f = "\<lambda>f. s\<lparr>store := f\<rparr>"])
  next
    case True
    let ?s1 = "s\<lparr>store := (store s)(snd e := receive out (store s (snd e)))\<rparr>"
    have same: "\<And>p. p \<in> snd ` set xs \<Longrightarrow> feed_hit ?s1 dns src p = feed_hit s dns src p"
      using notin True by (intro feed_hit_after) auto
    have step: "feed_one dns src out e s = ?s1"
      using True by (simp add: feed_one_eq)
    have "fold (feed_one dns src out) (e # xs) s = fold (feed_one dns src out) xs ?s1"
      by (simp add: step)
    also have "\<dots> = ?s1\<lparr>store := (\<lambda>p. if p \<in> snd ` set xs \<and> feed_hit ?s1 dns src p
                       then receive out (store ?s1 p) else store ?s1 p)\<rparr>"
      by (rule Cons.IH [OF d])
    also have "\<dots> = s\<lparr>store := (\<lambda>p. if p \<in> snd ` set (e # xs) \<and> feed_hit s dns src p
                       then receive out (store s p) else store s p)\<rparr>"
    proof -
      have "(\<lambda>p. if p \<in> snd ` set xs \<and> feed_hit ?s1 dns src p
                       then receive out (store ?s1 p) else store ?s1 p)
          = (\<lambda>p. if p \<in> snd ` set (e # xs) \<and> feed_hit s dns src p
                       then receive out (store s p) else store s p)"
      proof (rule ext)
        fix p
        show "(if p \<in> snd ` set xs \<and> feed_hit ?s1 dns src p
                       then receive out (store ?s1 p) else store ?s1 p)
          = (if p \<in> snd ` set (e # xs) \<and> feed_hit s dns src p
                       then receive out (store s p) else store s p)"
        proof (cases "p \<in> snd ` set xs")
          case True
          then have "p \<noteq> snd e" using notin by blast
          then show ?thesis using True same [OF True] by simp
        next
          case False
          then show ?thesis using True by auto
        qed
      qed
      then show ?thesis by simp
    qed
    finally show ?thesis .
  qed
qed

text \<open>The line for a \<open>SET k\<close> from 1.2.3.4:5 at 12 s and 345 \<mu>s.\<close>

lemma feed_line_sample:
  "feed_line 12 345 ''1.2.3.4:5'' [''SET'', ''k'']
     = ''12.345 [0 1.2.3.4:5] '' @ [char_of (34::nat)] @ ''SET'' @ [char_of (34::nat)]
         @ '' '' @ [char_of (34::nat)] @ ''k'' @ [char_of (34::nat)]"
  by code_simp

lemma to_string_samples:
  "to_string 5000 = ''5000'' \<and> to_string (- 7) = ''-7'' \<and> to_string 0 = ''0''"
  by code_simp

text \<open>
  Claim C4. Where every Connection stands once in the monitor table, \<open>FeedMonitorConns\<close>
  appends the composed line (as a RESP simple string, through \<open>Connection::Reply\<close>) to
  exactly the Connections \<open>m\<close> of the monitor table that are not the source and whose
  namespace is the source's or the default one; every other Connection, and the rest of
  the state, is left as it was. In particular the source is left as it was.
\<close>

theorem FeedMonitorConns_filter:
  assumes "distinct (map snd (monitor_conns (workers s w)))"
  shows "FeedMonitorConns dns tv_sec tv_usec w src tokens s =
     s\<lparr>store := (\<lambda>m. if m \<in> snd ` set (monitor_conns (workers s w)) \<and> feed_hit s dns src m
                       then receive (feed_line tv_sec tv_usec (conn_addr (store s src)) tokens)
                              (store s m)
                       else store s m)\<rparr>
   \<and> store (FeedMonitorConns dns tv_sec tv_usec w src tokens s) src = store s src"
  by (simp add: FeedMonitorConns_def Let_def fold_feed_one [OF assms] feed_hit_def)

text \<open>On the sample state: client 10 (namespace ns1) issues a command; the monitors 12
  (ns1) and 13 (default namespace) get the line, monitor 14 (ns2) and the clients do not.\<close>

theorem FeedMonitorConns_filter_witness:
  "distinct (map snd (monitor_conns (workers sample_world 0)))
   \<and> map (\<lambda>m. conn_output (store
          (FeedMonitorConns ''dflt'' 12 345 0 10 [''SET'', ''k'', ''v''] sample_world) m))
       [10, 11, 12, 13, 14]
     = [[], [],
        SimpleString (feed_line 12 345 ''1.2.3.4:5'' [''SET'', ''k'', ''v'']),
        SimpleString (feed_line 12 345 ''1.2.3.4:5'' [''SET'', ''k'', ''v'']),
        []]"
proof -
  have h: "distinct (map snd (monitor_conns (workers sample_world 0)))"
    by (simp add: sample_world_def)
  show ?thesis
    using h FeedMonitorConns_filter [OF h, of "''dflt''" 12 345 10 "[''SET'', ''k'', ''v'']"]
    by (simp add: sample_world_def sample_conn_def Connection_new_def feed_hit_def receive_def)
qed

section \<open>KickoutIdleClients\<close>

text \<open>\<open>static_cast<int>\<close> of a 64-bit unsigned number is its low 32 bits in two's complement.\<close>

lemma signed_take_bit_31:
  fixes r :: int
  assumes "0 \<le> r" "r < 4294967296"
  shows "signed_take_bit 31 r = (if r < 2147483648 then r else r - 4294967296)"
proof (cases "r < 2147483648")
  case True
  have "signed_take_bit 31 r = r"
    by (rule signed_take_bit_int_eq_self) (use assms True in simp_all)
  then show ?thesis using True by simp
next
  case False
  have "take_bit (Suc 31) r = take_bit (Suc 31) (r - 4294967296)"
    by (simp add: take_bit_eq_mod)
  then have "signed_take_bit 31 r = signed_take_bit 31 (r - 4294967296)"
    by (simp only: signed_take_bit_eq_iff_take_bit_eq)
  also have "\<dots> = r - 4294967296"
    by (rule signed_take_bit_int_eq_self) (use assms False in simp_all)
  finally show ?thesis using False by simp
qed

lemma static_cast_int_low32: "static_cast_int x = low32_signed x"
proof -
  have u: "uint (ucast x :: 32 word) = uint x mod 4294967296"
    by (simp add: unsigned_ucast_eq take_bit_eq_mod)
  have s: "sint (ucast x :: 32 word) = signed_take_bit 31 (uint (ucast x :: 32 word))"
    by (simp add: sint_uint)
  have r: "0 \<le> uint x mod 4294967296" "uint x mod 4294967296 < 4294967296"
    by simp_all
  show ?thesis
    unfolding static_cast_int_def low32_signed_def Let_def s u
    by (rule signed_take_bit_31 [OF r])
qed

lemma idle_pairs_Nil [simp]: "idle_pairs st tmo [] = []"
  by (simp add: idle_pairs_def)

lemma idle_pairs_append [simp]:
  "idle_pairs st tmo (xs @ ys) = idle_pairs st tmo xs @ idle_pairs st tmo ys"
  by (simp add: idle_pairs_def)

lemma idle_pairs_Cons:
  "idle_pairs st tmo (e # xs) =
     (if tmo \<le> low32_signed (idle_time (st (snd e)))
      then (fst e, conn_id (st (snd e))) # idle_pairs st tmo xs else idle_pairs st tmo xs)"
  by (simp add: idle_pairs_def)

lemma visited_step:
  assumes "cs \<noteq> []" "i \<le> length cs" "Suc n \<le> length cs"
  defines "j \<equiv> (if i = length cs then 0 else i)"
  shows "take (Suc n) (drop i cs @ cs) = cs ! j # take n (drop (Suc j) cs @ cs)"
proof (cases "i = length cs")
  case True
  obtain x xs where cs: "cs = x # xs" using assms(1) by (cases cs) auto
  have "n \<le> length xs" using assms(3) cs by simp
  then show ?thesis using True cs by (simp add: j_def)
next
  case False
  then have "i < length cs" using assms(2) by simp
  then have "drop i cs = cs ! i # drop (Suc i) cs"
    by (simp add: Cons_nth_drop_Suc)
  then show ?thesis using False by (simp add: j_def)
qed

text \<open>The loop reads the table in range, collects the idle pairs of the entries it walks
  over, and ends one past the last entry it visited.\<close>

lemma kick_scan_visits:
  "cs \<noteq> [] \<Longrightarrow> i \<le> length cs \<Longrightarrow> n \<le> length cs \<Longrightarrow>
   snd (kick_scan st tmo cs n i acc) = acc @ idle_pairs st tmo (take n (drop i cs @ cs))
   \<and> (0 < n \<longrightarrow> 0 < fst (kick_scan st tmo cs n i acc)
        \<and> fst (kick_scan st tmo cs n i acc) \<le> length cs
        \<and> cs ! (fst (kick_scan st tmo cs n i acc) - 1) = last (take n (drop i cs @ cs)))"
proof (induction n arbitrary: i acc)
  case 0
  show ?case by simp
next
  case (Suc n)
  define j where "j = (if i = length cs then 0 else i)"
  define V where "V = take n (drop (Suc j) cs @ cs)"
  define acc' where "acc' = acc @ idle_pairs st tmo [cs ! j]"
  define K where "K = kick_scan st tmo cs n (Suc j) acc'"
  have j: "j < length cs" using Suc.prems by (auto simp: j_def)
  have vis: "take (Suc n) (drop i cs @ cs) = cs ! j # V"
    unfolding j_def V_def by (rule visited_step) (use Suc.prems in auto)
  have unf: "kick_scan st tmo cs (Suc n) i acc = K"
    by (simp add: K_def j_def acc'_def Let_def idle_pairs_Cons idle_pairs_def
        static_cast_int_low32)
  have IH: "snd K = acc' @ idle_pairs st tmo V
   \<and> (0 < n \<longrightarrow> 0 < fst K \<and> fst K \<le> length cs \<and> cs ! (fst K - 1) = last V)"
    unfolding K_def V_def by (rule Suc.IH) (use Suc.prems j in auto)
  have app: "idle_pairs st tmo (cs ! j # V) = idle_pairs st tmo [cs ! j] @ idle_pairs st tmo V"
    by (simp add: idle_pairs_def)
  have "snd K = acc @ idle_pairs st tmo (cs ! j # V)"
    using IH by (simp add: app acc'_def)
  moreover have "0 < fst K \<and> fst K \<le> length cs \<and> cs ! (fst K - 1) = last (cs ! j # V)"
  proof (cases "n = 0")
    case True
    then have "K = (Suc j, acc')" "V = []" by (simp_all add: K_def V_def)
    then show ?thesis using j by simp
  next
    case False
    then have "V \<noteq> []" using Suc.prems(1) by (simp add: V_def)
    then show ?thesis using IH False by simp
  qed
  ultimately show ?case unfolding unf vis by simp
qed

lemma takeWhile_sorted_keys:
  fixes cs :: conn_map
  shows "sorted_wrt (<) (map fst cs) \<Longrightarrow>
   takeWhile (\<lambda>e. fst e \<le> k) cs = filter (\<lambda>e. fst e \<le> k) cs
   \<and> dropWhile (\<lambda>e. fst e \<le> k) cs = filter (\<lambda>e. k < fst e) cs"
proof (induction cs)
  case Nil
  show ?case by simp
next
  case (Cons e cs)
  show ?case
  proof (cases "fst e \<le> k")
    case True
    then show ?thesis using Cons by auto
  next
    case False
    have "\<forall>x \<in> set cs. k < fst x" using Cons.prems False by auto
    then have "filter (\<lambda>e. fst e \<le> k) cs = []" "filter (\<lambda>e. k < fst e) cs = cs"
      by (auto simp: filter_empty_conv intro: filter_True)
    then show ?thesis using False by simp
  qed
qed

lemma drop_upper_bound:
  fixes cs :: conn_map
  shows "sorted_wrt (<) (map fst cs) \<Longrightarrow>
   drop (upper_bound cs k) cs @ cs = scan_order k cs @ filter (\<lambda>e. k < fst e) cs"
proof -
  assume s: "sorted_wrt (<) (map fst cs)"
  have "drop (upper_bound cs k) cs = dropWhile (\<lambda>e. fst e \<le> k) cs"
    by (simp add: upper_bound_def dropWhile_eq_drop)
  moreover have "cs = takeWhile (\<lambda>e. fst e \<le> k) cs @ dropWhile (\<lambda>e. fst e \<le> k) cs"
    by simp
  ultimately have "drop (upper_bound cs k) cs @ cs
      = dropWhile (\<lambda>e. fst e \<le> k) cs @ takeWhile (\<lambda>e. fst e \<le> k) cs @ dropWhile (\<lambda>e. fst e \<le> k) cs"
    by metis
  then show ?thesis using takeWhile_sorted_keys [OF s, of k] by (simp add: scan_order_def)
qed

lemma length_scan_order:
  fixes cs :: conn_map
  shows "sorted_wrt (<) (map fst cs) \<Longrightarrow> length (scan_order k cs) = length cs"
  using takeWhile_sorted_keys [of cs k]
  by (metis add.commute length_append scan_order_def takeWhile_dropWhile_id)

lemma upper_bound_le: "upper_bound cs k \<le> length cs"
  by (simp add: upper_bound_def length_takeWhile_le)

lemma visited_scan_order:
  fixes cs :: conn_map
  assumes "sorted_wrt (<) (map fst cs)"
  shows "take (min (length cs) 50) (drop (upper_bound cs k) cs @ cs) = take 50 (scan_order k cs)"
proof -
  have "take (min (length cs) 50) (drop (upper_bound cs k) cs @ cs)
      = take (min (length cs) 50) (scan_order k cs)"
    by (simp add: drop_upper_bound [OF assms] length_scan_order [OF assms])
  also have "\<dots> = take 50 (scan_order k cs)"
    using length_scan_order [OF assms, of k] by (simp add: min_def)
  finally show ?thesis .
qed

lemma KickoutIdleClients_eq:
  assumes "sorted_wrt (<) (map fst (conns (workers s w)))" and "conns (workers s w) \<noteq> []"
  shows "KickoutIdleClients w tmo s =
     fold (\<lambda>c. RemoveConnectionByID w (fst c) (snd c))
       (idle_pairs (store s) tmo
          (take 50 (scan_order (last_iter_conn_fd (workers s w)) (conns (workers s w)))))
       (upd_worker w (\<lambda>k. k\<lparr>last_iter_conn_fd :=
          fst (last (take 50 (scan_order (last_iter_conn_fd (workers s w)) (conns (workers s w)))))\<rparr>) s)"
proof -
  define cs where "cs = conns (workers s w)"
  define cur where "cur = last_iter_conn_fd (workers s w)"
  define n where "n = min (length cs) 50"
  define K where "K = kick_scan (store s) tmo cs n (upper_bound cs cur) []"
  have ne: "cs \<noteq> []" and so: "sorted_wrt (<) (map fst cs)"
    using assms by (simp_all add: cs_def)
  have npos: "0 < n" using ne by (simp add: n_def)
  have vis: "take n (drop (upper_bound cs cur) cs @ cs) = take 50 (scan_order cur cs)"
    unfolding n_def by (rule visited_scan_order [OF so])
  have ks: "snd K = [] @ idle_pairs (store s) tmo (take n (drop (upper_bound cs cur) cs @ cs))
   \<and> (0 < n \<longrightarrow> 0 < fst K \<and> fst K \<le> length cs
        \<and> cs ! (fst K - 1) = last (take n (drop (upper_bound cs cur) cs @ cs)))"
    unfolding K_def by (rule kick_scan_visits) (simp_all add: ne upper_bound_le n_def)
  have K: "K = (fst K, idle_pairs (store s) tmo (take 50 (scan_order cur cs)))"
    and last: "cs ! (fst K - 1) = last (take 50 (scan_order cur cs))"
    using ks [unfolded vis] npos by (simp_all add: prod_eq_iff)
  have "KickoutIdleClients w tmo s =
      (case K of (i, to_be_killed_conns) \<Rightarrow>
         fold (\<lambda>conn. RemoveConnectionByID w (fst conn) (snd conn)) to_be_killed_conns
           (upd_worker w (\<lambda>k. k\<lparr>last_iter_conn_fd := fst (cs ! (i - 1))\<rparr>) s))"
    using ne by (simp add: KickoutIdleClients_def Let_def cs_def cur_def n_def K_def)
  also have "\<dots> = fold (\<lambda>c. RemoveConnectionByID w (fst c) (snd c))
       (idle_pairs (store s) tmo (take 50 (scan_order cur cs)))
       (upd_worker w (\<lambda>k. k\<lparr>last_iter_conn_fd := fst (last (take 50 (scan_order cur cs)))\<rparr>) s)"
    using last by (subst K) simp
  finally show ?thesis by (simp add: cs_def cur_def)
qed

text \<open>An idle time below \<open>2^31\<close> seconds is read by the cast as it is.\<close>

lemma low32_signed_small: "x < 2 ^ 31 \<Longrightarrow> low32_signed x = uint x"
proof -
  assume "x < 2 ^ 31"
  then have u: "uint x < 2147483648"
    by (simp add: word_less_def)
  have "0 \<le> uint x" by simp
  then have "uint x mod 4294967296 = uint x"
    using u by (simp add: mod_pos_pos_trivial)
  then show ?thesis
    using u by (simp add: low32_signed_def)
qed

lemma static_cast_int_small: "x < 2 ^ 31 \<Longrightarrow> static_cast_int x = uint x"
proof -
  assume a: "x < 2 ^ 31"
  then have u: "uint x < 2 ^ 31"
    by (simp add: word_less_def)
  have "uint (ucast x :: 32 word) = take_bit 32 (uint x)"
    by (simp add: unsigned_ucast_eq)
  then have e: "uint (ucast x :: 32 word) = uint x"
    using u by (simp add: take_bit_int_eq_self)
  have "sint (ucast x :: 32 word) = signed_take_bit 31 (uint (ucast x :: 32 word))"
    by (simp add: sint_uint)
  also have "\<dots> = uint x"
  proof -
    have "- (2 ^ 31) \<le> (0::int)" by simp
    also have "0 \<le> uint x" by simp
    finally have "- (2 ^ 31) \<le> uint x" .
    then show ?thesis using u
      unfolding e by (rule signed_take_bit_int_eq_self)
  qed
  finally show ?thesis by (simp add: static_cast_int_def)
qed

text \<open>
  Claim C5, as amended. The timer callback does nothing when the configured timeout is 0
  (the test is in \<open>TimerCB\<close>; \<open>KickoutIdleClients\<close> itself has none) or the normal table is
  empty. Otherwise, the table being in key order, it visits the first 50 entries (all of
  them when there are fewer) in the order that starts strictly after the cursor and wraps
  to the beginning; it collects the (descriptor, id) pairs of exactly the visited entries
  whose idle time, read as a 32-bit \<open>int\<close> (its low 32 bits in two's complement, which is
  what \<open>static_cast<int>\<close> gives), is at least the timeout; it sets the cursor to the
  descriptor of the last visited entry; and then it calls \<open>RemoveConnectionByID\<close> on each
  collected pair, in order. Below \<open>2^31\<close> seconds the \<open>int\<close> reading is the idle time itself.
\<close>

theorem TimerCB_scan:
  assumes "sorted_wrt (<) (map fst (conns (workers s w)))"
  shows "TimerCB w s =
     (let tmo = timeout (config (svr s));
          visited = take 50 (scan_order (last_iter_conn_fd (workers s w)) (conns (workers s w)))
      in if tmo = 0 \<or> visited = [] then s
         else fold (\<lambda>c. RemoveConnectionByID w (fst c) (snd c))
                (idle_pairs (store s) tmo visited)
                (upd_worker w (\<lambda>k. k\<lparr>last_iter_conn_fd := fst (last visited)\<rparr>) s))
   \<and> (idle_time c < 2 ^ 31 \<longrightarrow> low32_signed (idle_time c) = uint (idle_time c))
   \<and> static_cast_int x = low32_signed x"
proof (cases "conns (workers s w) = []")
  case True
  then show ?thesis
    by (simp add: TimerCB_def KickoutIdleClients_def scan_order_def low32_signed_small
        static_cast_int_low32)
next
  case False
  have "length (scan_order (last_iter_conn_fd (workers s w)) (conns (workers s w)))
      = length (conns (workers s w))"
    by (rule length_scan_order [OF assms])
  then have "take 50 (scan_order (last_iter_conn_fd (workers s w)) (conns (workers s w))) \<noteq> []"
    using False by (cases "scan_order (last_iter_conn_fd (workers s w)) (conns (workers s w))") auto
  then show ?thesis
    by (simp add: TimerCB_def KickoutIdleClients_eq [OF assms False] Let_def
        low32_signed_small static_cast_int_low32)
qed

text \<open>On the sample state (timeout 30, cursor 3): the scan visits descriptor 7 and then,
  wrapping, descriptor 3; only the latter has been idle for 30 seconds and is removed.\<close>

theorem TimerCB_scan_witness:
  "sorted_wrt (<) (map fst (conns (workers sample_world 0)))
   \<and> idle_time (store sample_world 10) < 2 ^ 31
   \<and> low32_signed (idle_time (store sample_world 10)) = 40
   \<and> conns (workers (TimerCB 0 sample_world) 0) = [(7, 11)]
   \<and> last_iter_conn_fd (workers (TimerCB 0 sample_world) 0) = 3
   \<and> alloc (TimerCB 0 sample_world) = {11, 12, 13, 14}
   \<and> sock_log (TimerCB 0 sample_world) = [Closed 3]
   \<and> client_count (svr (TimerCB 0 sample_world)) = 4"
proof -
  have h: "sorted_wrt (<) (map fst (conns (workers sample_world 0)))"
    by (simp add: sample_world_def)
  have i: "idle_time (store sample_world 10) < 2 ^ 31"
    by (simp add: sample_world_def sample_conn_def)
  have v: "low32_signed 40 = 40" "low32_signed 5 = 5"
    by (simp_all add: low32_signed_def)
  show ?thesis
    using h i TimerCB_scan [OF h, of "store sample_world 10"]
    by (simp add: sample_world_def sample_conn_def Connection_new_def scan_order_def
        idle_pairs_def v RemoveConnectionByID_def map_find_def map_erase_def upd_worker_def
        delete_conn_def DecrClientNum_def upd_svr_def Let_def)
qed

text \<open>
  Claim C5 as stated, with the idle time itself compared to the timeout, does not hold from
  \<open>2^31\<close> seconds on. Client 10 on descriptor 3 has been idle for \<open>2^31\<close> seconds and the timeout
  is 30; the scan visits descriptor 7 and then descriptor 3, the cast reads the idle time
  as \<open>- 2^31\<close>, and the client is neither collected nor removed.
\<close>

theorem idle_beyond_int_range_counterexample:
  "timeout (config (svr stale_world)) = 30
   \<and> take 50 (scan_order (last_iter_conn_fd (workers stale_world 0))
        (conns (workers stale_world 0))) = [(7, 11), (3, 10)]
   \<and> uint (idle_time (store stale_world 10)) = 2147483648
   \<and> timeout (config (svr stale_world)) \<le> uint (idle_time (store stale_world 10))
   \<and> static_cast_int (idle_time (store stale_world 10)) = - 2147483648
   \<and> conns (workers (TimerCB 0 stale_world) 0) = [(3, 10), (7, 11)]
   \<and> last_iter_conn_fd (workers (TimerCB 0 stale_world) 0) = 3
   \<and> 10 \<in> alloc (TimerCB 0 stale_world)
   \<and> sock_log (TimerCB 0 stale_world) = []"
proof -
  have h: "sorted_wrt (<) (map fst (conns (workers stale_world 0)))"
    and ne: "conns (workers stale_world 0) \<noteq> []"
    by (simp_all add: stale_world_def sample_world_def)
  have c: "static_cast_int 2147483648 = - 2147483648"
    by (simp add: static_cast_int_def)
  have v: "low32_signed 2147483648 = - 2147483648" "low32_signed 5 = 5"
    by (simp_all add: low32_signed_def)
  have u: "uint (2147483648 :: 64 word) = 2147483648"
    by simp
  have i: "idle_time (store stale_world 10) = 2147483648"
    by (simp add: stale_world_def)
  have t: "TimerCB 0 stale_world = KickoutIdleClients 0 30 stale_world"
    by (simp add: TimerCB_def stale_world_def sample_world_def)
  show ?thesis
    unfolding t KickoutIdleClients_eq [OF h ne] i u c
    by (simp add: stale_world_def sample_world_def sample_conn_def Connection_new_def
        scan_order_def idle_pairs_def v upd_worker_def)
qed

section \<open>newConnection\<close>

text \<open>
  Claim C2, on the code: a rejection at the client cap. The server holds its one allowed
  client (descriptor 4) and accepts descriptor 5. \<open>newConnection\<close> writes the RESP error to
  descriptor 5 and calls \<open>RemoveConnection(5)\<close>; \<open>AddConnection\<close> never put the new
  Connection in a table, so nothing is found there: the Connection stays allocated and
  descriptor 5 is never closed.
\<close>

theorem newConnection_at_cap_leaves_socket_open:
  "(let s' = newConnection ''dflt'' 0 5 True 101 (Some (''10.0.0.2'', 4000)) full_world
    in sock_log s' = [Wrote 5 (Redis_Error ''ERR max number of clients reached'')]
       \<and> Closed 5 \<notin> set (sock_log s')
       \<and> 101 \<in> alloc s'
       \<and> conns (workers s' 0) = [(4, 100)] \<and> monitor_conns (workers s' 0) = []
       \<and> client_count (svr s') = 1)"
  by (simp add: newConnection_def full_world_def empty_worker_def sample_conn_def
      AddConnection_def RemoveConnection_def Connection_new_def bufferevent_enable_def
      upd_conn_def map_find_def IncrClientNum_def DecrClientNum_def upd_svr_def SetAddr_def
      Let_def)

section \<open>The tables of a Worker\<close>

subsection \<open>map facts\<close>

lemma map_find_mem: "map_find m k = Some p \<Longrightarrow> (k, p) \<in> set m"
  by (simp add: map_find_def map_of_SomeD)

lemma map_find_None_iff: "map_find m k = None \<longleftrightarrow> k \<notin> fst ` set m"
  by (simp add: map_find_def map_of_eq_None_iff)

lemma sorted_keys_distinct:
  fixes m :: conn_map
  shows "sorted_wrt (<) (map fst m) \<Longrightarrow> distinct (map fst m)"
  by (simp add: strict_sorted_iff)

lemma map_find_Some_iff:
  fixes m :: conn_map
  shows "sorted_wrt (<) (map fst m) \<Longrightarrow> map_find m k = Some p \<longleftrightarrow> (k, p) \<in> set m"
  by (simp add: map_find_def sorted_keys_distinct)

lemma set_map_erase [simp]: "set (map_erase k m) = {e \<in> set m. fst e \<noteq> k}"
  by (auto simp: map_erase_def)

lemma sorted_map_erase:
  fixes m :: conn_map
  shows "sorted_wrt (<) (map fst m) \<Longrightarrow> sorted_wrt (<) (map fst (map_erase k m))"
  by (induction m) (auto simp: map_erase_def)

lemma set_map_put:
  fixes m :: conn_map
  shows "sorted_wrt (<) (map fst m) \<Longrightarrow> set (map_put k v m) = insert (k, v) {e \<in> set m. fst e \<noteq> k}"
proof (induction m)
  case Nil
  show ?case by simp
next
  case (Cons e m)
  obtain k' v' where e: "e = (k', v')" by (cases e)
  have above: "\<forall>x \<in> set m. k' < fst x" and so: "sorted_wrt (<) (map fst m)"
    using Cons.prems e by auto
  consider "k < k'" | "k = k'" | "k' < k" by linarith
  then show ?case
  proof cases
    case 1
    then show ?thesis using above e by force
  next
    case 2
    then show ?thesis using above e by force
  next
    case 3
    then show ?thesis using above e Cons.IH [OF so] by force
  qed
qed

lemma sorted_map_put:
  fixes m :: conn_map
  shows "sorted_wrt (<) (map fst m) \<Longrightarrow> sorted_wrt (<) (map fst (map_put k v m))"
proof (induction m)
  case Nil
  show ?case by simp
next
  case (Cons e m)
  obtain k' v' where e: "e = (k', v')" by (cases e)
  have above: "\<forall>x \<in> set m. k' < fst x" and so: "sorted_wrt (<) (map fst m)"
    using Cons.prems e by auto
  consider "k < k'" | "k = k'" | "k' < k" by linarith
  then show ?case
  proof cases
    case 1
    then show ?thesis using above e so by force
  next
    case 2
    then show ?thesis using above e so by force
  next
    case 3
    then show ?thesis using above e Cons.IH [OF so] set_map_put [OF so, of k v] by force
  qed
qed

lemma map_find_map_put:
  "map_find (map_put k v m) k' = (if k' = k then Some v else map_find m k')"
  by (induction m) (auto simp: map_find_def)


subsection \<open>field access\<close>

lemma upd_svr_fields [simp]:
  "svr (upd_svr f s) = f (svr s)" "store (upd_svr f s) = store s" "alloc (upd_svr f s) = alloc s"
  "workers (upd_svr f s) = workers s" "sock_log (upd_svr f s) = sock_log s"
  by (simp_all add: upd_svr_def)

lemma upd_conn_fields [simp]:
  "svr (upd_conn p f s) = svr s" "store (upd_conn p f s) = (store s)(p := f (store s p))"
  "alloc (upd_conn p f s) = alloc s" "workers (upd_conn p f s) = workers s"
  "sock_log (upd_conn p f s) = sock_log s"
  by (simp_all add: upd_conn_def)

lemma upd_worker_fields [simp]:
  "svr (upd_worker w f s) = svr s" "store (upd_worker w f s) = store s"
  "alloc (upd_worker w f s) = alloc s"
  "workers (upd_worker w f s) = (workers s)(w := f (workers s w))"
  "sock_log (upd_worker w f s) = sock_log s"
  by (simp_all add: upd_worker_def)

lemma delete_conn_fields [simp]:
  "svr (delete_conn p s) = svr s" "store (delete_conn p s) = store s"
  "alloc (delete_conn p s) = alloc s - {p}" "workers (delete_conn p s) = workers s"
  "sock_log (delete_conn p s) = sock_log s @ [Closed (conn_fd (store s p))]"
  by (simp_all add: delete_conn_def)

lemmas counter_defs = IncrClientNum_def DecrClientNum_def IncrMonitorClientNum_def
  DecrMonitorClientNum_def fetch_add_client_id_def

subsection \<open>invariant\<close>

lemma entry_ok_pair:
  "entry_ok s v (k, p) \<longleftrightarrow>
     p \<in> alloc s \<and> conn_fd (store s p) = k \<and> owner (store s p) = v \<and> id_assigned (store s p)"
  by (simp add: entry_ok_def)

lemma worker_invI:
  assumes "sorted_wrt (<) (map fst (conns (workers s v)))"
    and "sorted_wrt (<) (map fst (monitor_conns (workers s v)))"
    and "\<And>k p q. (k, p) \<in> set (conns (workers s v)) \<Longrightarrow>
           (k, q) \<in> set (monitor_conns (workers s v)) \<Longrightarrow> False"
    and "\<And>k p. (k, p) \<in> set (conns (workers s v)) \<Longrightarrow> entry_ok s v (k, p)"
    and "\<And>k p. (k, p) \<in> set (monitor_conns (workers s v)) \<Longrightarrow> entry_ok s v (k, p)"
  shows "worker_inv s v"
  unfolding worker_inv_def list_all_iff
proof (intro conjI ballI)
  show "fst ` set (conns (workers s v)) \<inter> fst ` set (monitor_conns (workers s v)) = {}"
    using assms(3) by fastforce
next
  fix e assume "e \<in> set (conns (workers s v))"
  then show "entry_ok s v e" using assms(4) [of "fst e" "snd e"] by simp
next
  fix e assume "e \<in> set (monitor_conns (workers s v))"
  then show "entry_ok s v e" using assms(5) [of "fst e" "snd e"] by simp
qed (use assms in simp_all)

lemma inv_sorted:
  "worker_inv s v \<Longrightarrow> sorted_wrt (<) (map fst (conns (workers s v)))"
  "worker_inv s v \<Longrightarrow> sorted_wrt (<) (map fst (monitor_conns (workers s v)))"
  by (simp_all add: worker_inv_def)

lemma inv_disjoint:
  "worker_inv s v \<Longrightarrow> (k, p) \<in> set (conns (workers s v)) \<Longrightarrow>
   (k, q) \<in> set (monitor_conns (workers s v)) \<Longrightarrow> False"
  unfolding worker_inv_def by (metis disjoint_iff fst_conv imageI)

lemma inv_entry:
  "worker_inv s v \<Longrightarrow> (k, p) \<in> set (conns (workers s v)) \<Longrightarrow> entry_ok s v (k, p)"
  "worker_inv s v \<Longrightarrow> (k, p) \<in> set (monitor_conns (workers s v)) \<Longrightarrow> entry_ok s v (k, p)"
  unfolding worker_inv_def list_all_iff by blast+

lemma worker_inv_same:
  assumes "worker_inv s v" and "workers s' v = workers s v"
    and "\<And>k p. entry_ok s v (k, p) \<Longrightarrow>
           (k, p) \<in> set (conns (workers s v)) \<union> set (monitor_conns (workers s v)) \<Longrightarrow>
           entry_ok s' v (k, p)"
  shows "worker_inv s' v"
proof (rule worker_invI)
  show "sorted_wrt (<) (map fst (conns (workers s' v)))"
    "sorted_wrt (<) (map fst (monitor_conns (workers s' v)))"
    using inv_sorted [OF assms(1)] assms(2) by simp_all
next
  fix k p q assume "(k, p) \<in> set (conns (workers s' v))" "(k, q) \<in> set (monitor_conns (workers s' v))"
  then show False using inv_disjoint [OF assms(1), of k p q] assms(2) by simp
next
  fix k p assume "(k, p) \<in> set (conns (workers s' v))"
  then have m: "(k, p) \<in> set (conns (workers s v))" using assms(2) by simp
  show "entry_ok s' v (k, p)"
    using assms(3) [OF inv_entry(1) [OF assms(1) m]] m by simp
next
  fix k p assume "(k, p) \<in> set (monitor_conns (workers s' v))"
  then have m: "(k, p) \<in> set (monitor_conns (workers s v))" using assms(2) by simp
  show "entry_ok s' v (k, p)"
    using assms(3) [OF inv_entry(2) [OF assms(1) m]] m by simp
qed

lemma worker_inv_upd_svr [simp]: "worker_inv (upd_svr f s) v = worker_inv s v"
  by (simp add: worker_inv_def list_all_iff entry_ok_def)

lemma worker_inv_sock_log [simp]: "worker_inv (s\<lparr>sock_log := l\<rparr>) v = worker_inv s v"
  by (simp add: worker_inv_def list_all_iff entry_ok_def)

lemma worker_inv_cursor [simp]:
  "worker_inv (upd_worker w (\<lambda>k. k\<lparr>last_iter_conn_fd := x\<rparr>) s) v = worker_inv s v"
  by (cases "v = w") (simp_all add: worker_inv_def list_all_iff entry_ok_def)

lemma entry_ok_upd_conn:
  "keeps_identity f \<Longrightarrow> entry_ok (upd_conn p f s) v e = entry_ok s v e"
  by (simp add: entry_ok_def keeps_identity_def)

lemma worker_inv_upd_conn:
  "keeps_identity f \<Longrightarrow> worker_inv (upd_conn p f s) v = worker_inv s v"
  by (simp add: worker_inv_def list_all_iff entry_ok_upd_conn)

text \<open>A member of another Worker's tables is another object.\<close>

lemma other_worker_ptr:
  assumes "worker_inv s v" "owner (store s p) \<noteq> v"
    and "(k, q) \<in> set (conns (workers s v)) \<union> set (monitor_conns (workers s v))"
  shows "q \<noteq> p"
  using inv_entry [OF assms(1), of k q] assms(2,3) by (auto simp: entry_ok_pair)

lemma erase_conns_inv:
  assumes inv: "\<forall>v. worker_inv s v" and f: "map_find (conns (workers s w)) fd = Some p"
  shows "worker_inv (upd_worker w (\<lambda>k. k\<lparr>conns := map_erase fd (conns k)\<rparr>) (delete_conn p s)) v"
    (is "worker_inv ?s' v")
proof -
  have mem: "(fd, p) \<in> set (conns (workers s w))" using f by (rule map_find_mem)
  have iw: "worker_inv s w" and iv: "worker_inv s v" using inv by simp_all
  have pw: "conn_fd (store s p) = fd" "owner (store s p) = w"
    using inv_entry(1) [OF iw mem] by (simp_all add: entry_ok_pair)
  show ?thesis
  proof (cases "v = w")
    case False
    show ?thesis
    proof (rule worker_inv_same [OF iv])
      show "workers ?s' v = workers s v" using False by simp
    next
      fix k q assume ok: "entry_ok s v (k, q)"
        and "(k, q) \<in> set (conns (workers s v)) \<union> set (monitor_conns (workers s v))"
      then have "q \<noteq> p" using other_worker_ptr [OF iv, of p k q] pw False by simp
      then show "entry_ok ?s' v (k, q)" using ok by (simp add: entry_ok_pair)
    qed
  next
    case True
    show ?thesis unfolding True
    proof (rule worker_invI)
      show "sorted_wrt (<) (map fst (conns (workers ?s' w)))"
        using inv_sorted(1) [OF iw] by (simp add: sorted_map_erase)
      show "sorted_wrt (<) (map fst (monitor_conns (workers ?s' w)))"
        using inv_sorted(2) [OF iw] by simp
    next
      fix k q r assume "(k, q) \<in> set (conns (workers ?s' w))"
        "(k, r) \<in> set (monitor_conns (workers ?s' w))"
      then show False using inv_disjoint [OF iw, of k q r] by simp
    next
      fix k q assume "(k, q) \<in> set (conns (workers ?s' w))"
      then have m: "(k, q) \<in> set (conns (workers s w))" and ne: "k \<noteq> fd" by simp_all
      have ok: "entry_ok s w (k, q)" by (rule inv_entry(1) [OF iw m])
      then have "q \<noteq> p" using pw ne by (auto simp: entry_ok_pair)
      then show "entry_ok ?s' w (k, q)" using ok by (simp add: entry_ok_pair)
    next
      fix k q assume "(k, q) \<in> set (monitor_conns (workers ?s' w))"
      then have m: "(k, q) \<in> set (monitor_conns (workers s w))" by simp
      have ok: "entry_ok s w (k, q)" by (rule inv_entry(2) [OF iw m])
      have "k \<noteq> fd" using inv_disjoint [OF iw mem] m by auto
      then have "q \<noteq> p" using pw ok by (auto simp: entry_ok_pair)
      then show "entry_ok ?s' w (k, q)" using ok by (simp add: entry_ok_pair)
    qed
  qed
qed


lemma erase_monitor_inv:
  assumes inv: "\<forall>v. worker_inv s v" and f: "map_find (monitor_conns (workers s w)) fd = Some p"
  shows "worker_inv
      (upd_worker w (\<lambda>k. k\<lparr>monitor_conns := map_erase fd (monitor_conns k)\<rparr>) (delete_conn p s)) v"
    (is "worker_inv ?s' v")
proof -
  have mem: "(fd, p) \<in> set (monitor_conns (workers s w))" using f by (rule map_find_mem)
  have iw: "worker_inv s w" and iv: "worker_inv s v" using inv by simp_all
  have pw: "conn_fd (store s p) = fd" "owner (store s p) = w"
    using inv_entry(2) [OF iw mem] by (simp_all add: entry_ok_pair)
  show ?thesis
  proof (cases "v = w")
    case False
    show ?thesis
    proof (rule worker_inv_same [OF iv])
      show "workers ?s' v = workers s v" using False by simp
    next
      fix k q assume ok: "entry_ok s v (k, q)"
        and "(k, q) \<in> set (conns (workers s v)) \<union> set (monitor_conns (workers s v))"
      then have "q \<noteq> p" using other_worker_ptr [OF iv, of p k q] pw False by simp
      then show "entry_ok ?s' v (k, q)" using ok by (simp add: entry_ok_pair)
    qed
  next
    case True
    show ?thesis unfolding True
    proof (rule worker_invI)
      show "sorted_wrt (<) (map fst (monitor_conns (workers ?s' w)))"
        using inv_sorted(2) [OF iw] by (simp add: sorted_map_erase)
      show "sorted_wrt (<) (map fst (conns (workers ?s' w)))"
        using inv_sorted(1) [OF iw] by simp
    next
      fix k q r assume "(k, q) \<in> set (conns (workers ?s' w))"
        "(k, r) \<in> set (monitor_conns (workers ?s' w))"
      then show False using inv_disjoint [OF iw, of k q r] by simp
    next
      fix k q assume "(k, q) \<in> set (monitor_conns (workers ?s' w))"
      then have m: "(k, q) \<in> set (monitor_conns (workers s w))" and ne: "k \<noteq> fd" by simp_all
      have ok: "entry_ok s w (k, q)" by (rule inv_entry(2) [OF iw m])
      then have "q \<noteq> p" using pw ne by (auto simp: entry_ok_pair)
      then show "entry_ok ?s' w (k, q)" using ok by (simp add: entry_ok_pair)
    next
      fix k q assume "(k, q) \<in> set (conns (workers ?s' w))"
      then have m: "(k, q) \<in> set (conns (workers s w))" by simp
      have ok: "entry_ok s w (k, q)" by (rule inv_entry(1) [OF iw m])
      have "k \<noteq> fd" using inv_disjoint [OF iw m] mem by auto
      then have "q \<noteq> p" using pw ok by (auto simp: entry_ok_pair)
      then show "entry_ok ?s' w (k, q)" using ok by (simp add: entry_ok_pair)
    qed
  qed
qed

lemma RemoveConnection_inv:
  assumes "\<forall>v. worker_inv s v"
  shows "worker_inv (RemoveConnection w fd s) v"
proof -
  define s1 where "s1 = (case map_find (conns (workers s w)) fd of
                  Some p \<Rightarrow>
                    DecrClientNum
                      (upd_worker w (\<lambda>k. k\<lparr>conns := map_erase fd (conns k)\<rparr>) (delete_conn p s))
                | None \<Rightarrow> s)"
  have i1: "worker_inv s1 u" for u
    unfolding s1_def using assms
    by (simp add: DecrClientNum_def erase_conns_inv split: option.splits)
  have "RemoveConnection w fd s = (case map_find (monitor_conns (workers s1 w)) fd of
           Some p \<Rightarrow>
             DecrMonitorClientNum
               (DecrClientNum
                 (upd_worker w (\<lambda>k. k\<lparr>monitor_conns := map_erase fd (monitor_conns k)\<rparr>)
                   (delete_conn p s1)))
         | None \<Rightarrow> s1)"
    unfolding RemoveConnection_def Let_def s1_def [symmetric] ..
  then show ?thesis
    using i1 by (simp add: counter_defs erase_monitor_inv split: option.splits)
qed

lemma RemoveConnectionByID_inv:
  assumes "\<forall>v. worker_inv s v"
  shows "worker_inv (RemoveConnectionByID w fd i s) v"
proof -
  define s1 where "s1 = (case map_find (conns (workers s w)) fd of
                  Some p \<Rightarrow>
                    if conn_id (store s p) = i
                    then DecrClientNum
                      (upd_worker w (\<lambda>k. k\<lparr>conns := map_erase fd (conns k)\<rparr>) (delete_conn p s))
                    else s
                | None \<Rightarrow> s)"
  have i1: "worker_inv s1 u" for u
    unfolding s1_def using assms
    by (simp add: DecrClientNum_def erase_conns_inv split: option.splits)
  have "RemoveConnectionByID w fd i s = (case map_find (monitor_conns (workers s1 w)) fd of
           Some p \<Rightarrow>
             if conn_id (store s1 p) = i
             then DecrMonitorClientNum
               (DecrClientNum
                 (upd_worker w (\<lambda>k. k\<lparr>monitor_conns := map_erase fd (monitor_conns k)\<rparr>)
                   (delete_conn p s1)))
             else s1
         | None \<Rightarrow> s1)"
    unfolding RemoveConnectionByID_def Let_def s1_def [symmetric] ..
  then show ?thesis
    using i1 by (simp add: counter_defs erase_monitor_inv split: option.splits)
qed

lemma fold_RemoveConnectionByID_inv:
  "\<forall>v. worker_inv s v \<Longrightarrow>
   worker_inv (fold (\<lambda>c. RemoveConnectionByID w (fst c) (snd c)) xs s) v"
proof (induction xs arbitrary: s)
  case Nil
  then show ?case by simp
next
  case (Cons x xs)
  have "\<forall>v. worker_inv (RemoveConnectionByID w (fst x) (snd x) s) v"
    using RemoveConnectionByID_inv [OF Cons.prems] by blast
  then show ?case using Cons.IH by simp
qed

lemma TimerCB_inv:
  assumes "\<forall>v. worker_inv s v"
  shows "worker_inv (TimerCB w s) v"
proof -
  have so: "sorted_wrt (<) (map fst (conns (workers s w)))"
    using assms by (simp add: inv_sorted)
  show ?thesis
  proof (cases "timeout (config (svr s)) = 0 \<or> conns (workers s w) = []")
    case True
    then show ?thesis using assms by (auto simp: TimerCB_def KickoutIdleClients_def)
  next
    case False
    then have ne: "conns (workers s w) \<noteq> []" and t: "timeout (config (svr s)) \<noteq> 0" by simp_all
    show ?thesis
      unfolding TimerCB_def KickoutIdleClients_eq [OF so ne]
      using t assms by (simp add: fold_RemoveConnectionByID_inv)
  qed
qed

lemma keeps_identity_simps [simp]:
  "keeps_identity (\<lambda>c. c\<lparr>conn_flags := g c\<rparr>)"
  "keeps_identity (\<lambda>c. c\<lparr>bev_events := h c\<rparr>)"
  "keeps_identity (\<lambda>c. c\<lparr>conn_output := o' c\<rparr>)"
  "keeps_identity (\<lambda>c. c\<lparr>conn_addr := a\<rparr>)"
  "keeps_identity flag_kill" "keeps_identity (receive line)"
  by (simp_all add: keeps_identity_def flag_kill_def receive_def)

lemma worker_inv_store_upd:
  "keeps_identity f \<Longrightarrow>
   worker_inv (s\<lparr>store := (store s)(p := f (store s p))\<rparr>) v = worker_inv s v"
  using worker_inv_upd_conn [of f p s v] by (simp add: upd_conn_def)

lemma kill_one_inv:
  "\<forall>v. worker_inv (snd ks) v \<Longrightarrow> worker_inv (snd (kill_one self i a skipme e ks)) v"
  by (cases ks) (simp add: kill_one_eq worker_inv_store_upd)

lemma KillClient_inv:
  assumes "\<forall>v. worker_inv s v"
  shows "worker_inv (snd (KillClient w self i a skipme killed s)) v"
proof -
  have "\<And>ks. \<forall>v. worker_inv (snd ks) v \<Longrightarrow>
      worker_inv (snd (fold (kill_one self i a skipme) xs ks)) v" for xs
  proof (induction xs)
    case Nil
    then show ?case by simp
  next
    case (Cons x xs)
    have "\<forall>v. worker_inv (snd (kill_one self i a skipme x ks)) v"
      using kill_one_inv [OF Cons.prems] by blast
    then show ?case using Cons.IH by simp
  qed
  then show ?thesis using assms by (simp add: KillClient_def)
qed

lemma FeedMonitorConns_inv:
  assumes "\<forall>v. worker_inv s v"
  shows "worker_inv (FeedMonitorConns dns tv_sec tv_usec w src tokens s) v"
proof -
  have "\<And>s. \<forall>v. worker_inv s v \<Longrightarrow> worker_inv (fold (feed_one dns src out) xs s) v"
    for xs out
  proof (induction xs)
    case Nil
    then show ?case by simp
  next
    case (Cons x xs)
    have "\<forall>v. worker_inv (feed_one dns src out x s) v"
      using Cons.prems by (simp add: feed_one_eq worker_inv_store_upd)
    then show ?case using Cons.IH by simp
  qed
  then show ?thesis using assms by (simp add: FeedMonitorConns_def Let_def)
qed

lemma Reply_inv:
  "\<forall>v. worker_inv s v \<Longrightarrow> worker_inv (snd (Reply w fd bytes s)) v"
  by (simp add: Reply_def Redis_Reply_def worker_inv_upd_conn split: option.splits)

lemma EnableWriteEvent_inv:
  "\<forall>v. worker_inv s v \<Longrightarrow> worker_inv (snd (EnableWriteEvent w fd s)) v"
  by (simp add: EnableWriteEvent_def bufferevent_enable_def worker_inv_upd_conn
      split: option.splits)


lemma AddConnection_eq:
  "AddConnection w c s =
     (if map_find (conns (workers s w)) (conn_fd (store s c)) \<noteq> None
      then (NotOK ''connection was exists'', s)
      else if maxclients (config (svr s)) \<le> client_count (svr s)
      then (NotOK ''max number of clients reached'', s)
      else (OK,
            s\<lparr>svr := (svr s)\<lparr>next_id := next_id (svr s) + 1,
                               client_count := client_count (svr s) + 1\<rparr>,
              store := (store s)(c := (store s c)\<lparr>conn_id := next_id (svr s),
                                                  id_assigned := True\<rparr>),
              workers := (workers s)(w := (workers s w)
                 \<lparr>conns := map_put (conn_fd (store s c)) c (conns (workers s w))\<rparr>)\<rparr>))"
  by (auto simp: AddConnection_def Let_def counter_defs upd_svr_def upd_worker_def SetID_def
      upd_conn_def map_insert_def split: option.splits)

lemma AddConnection_inv:
  assumes inv: "\<forall>v. worker_inv s v"
    and c: "c \<in> alloc s" "owner (store s c) = w"
    and m: "map_find (monitor_conns (workers s w)) (conn_fd (store s c)) = None"
  shows "worker_inv (snd (AddConnection w c s)) v"
proof (cases "map_find (conns (workers s w)) (conn_fd (store s c)) \<noteq> None
    \<or> maxclients (config (svr s)) \<le> client_count (svr s)")
  case True
  then show ?thesis using inv by (auto simp: AddConnection_eq)
next
  case False
  define fd where "fd = conn_fd (store s c)"
  define s' where "s' = s\<lparr>svr := (svr s)\<lparr>next_id := next_id (svr s) + 1,
                               client_count := client_count (svr s) + 1\<rparr>,
              store := (store s)(c := (store s c)\<lparr>conn_id := next_id (svr s),
                                                  id_assigned := True\<rparr>),
              workers := (workers s)(w := (workers s w)
                 \<lparr>conns := map_put fd c (conns (workers s w))\<rparr>)\<rparr>"
  have res: "snd (AddConnection w c s) = s'"
    using False by (simp add: AddConnection_eq s'_def fd_def)
  have nc: "fd \<notin> fst ` set (conns (workers s w))" and nm: "fd \<notin> fst ` set (monitor_conns (workers s w))"
    using False m by (simp_all add: map_find_None_iff fd_def)
  have iw: "worker_inv s w" and iv: "worker_inv s v" using inv by simp_all
  have fresh: "q \<noteq> c"
    if "(k, q) \<in> set (conns (workers s w)) \<union> set (monitor_conns (workers s w))" for k q
  proof
    assume "q = c"
    moreover have "entry_ok s w (k, q)" using that inv_entry [OF iw] by blast
    ultimately have "k = fd" by (simp add: entry_ok_pair fd_def)
    then show False using that nc nm by force
  qed
  have keep: "entry_ok s' u (k, q)" if "entry_ok s u (k, q)" "q \<noteq> c" for u k q
    using that by (simp add: entry_ok_pair s'_def)
  show ?thesis unfolding res
  proof (cases "v = w")
    case False
    show "worker_inv s' v"
    proof (rule worker_inv_same [OF iv])
      show "workers s' v = workers s v" using False by (simp add: s'_def)
    next
      fix k q assume ok: "entry_ok s v (k, q)"
        and "(k, q) \<in> set (conns (workers s v)) \<union> set (monitor_conns (workers s v))"
      then have "q \<noteq> c" using other_worker_ptr [OF iv, of c k q] c False by simp
      then show "entry_ok s' v (k, q)" using ok by (rule keep [rotated])
    qed
  next
    case True
    have cs': "conns (workers s' w) = map_put fd c (conns (workers s w))"
      and ms': "monitor_conns (workers s' w) = monitor_conns (workers s w)"
      by (simp_all add: s'_def)
    have set': "set (conns (workers s' w)) = insert (fd, c) (set (conns (workers s w)))"
      unfolding cs' using nc by (auto simp: set_map_put [OF inv_sorted(1) [OF iw]])
    have new: "entry_ok s' w (fd, c)"
      using c by (simp add: entry_ok_pair s'_def fd_def)
    show "worker_inv s' v" unfolding True
    proof (rule worker_invI)
      show "sorted_wrt (<) (map fst (conns (workers s' w)))"
        unfolding cs' by (rule sorted_map_put [OF inv_sorted(1) [OF iw]])
      show "sorted_wrt (<) (map fst (monitor_conns (workers s' w)))"
        unfolding ms' by (rule inv_sorted(2) [OF iw])
    next
      fix k q r assume "(k, q) \<in> set (conns (workers s' w))"
        "(k, r) \<in> set (monitor_conns (workers s' w))"
      then show False
        unfolding set' ms' using nm inv_disjoint [OF iw, of k q r] by force
    next
      fix k q assume "(k, q) \<in> set (conns (workers s' w))"
      then consider "(k, q) = (fd, c)" | "(k, q) \<in> set (conns (workers s w))"
        unfolding set' by blast
      then show "entry_ok s' w (k, q)"
      proof cases
        case 1
        then show ?thesis using new by simp
      next
        case 2
        then show ?thesis using keep [OF inv_entry(1) [OF iw 2]] fresh [of k q] by simp
      qed
    next
      fix k q assume "(k, q) \<in> set (monitor_conns (workers s' w))"
      then have 2: "(k, q) \<in> set (monitor_conns (workers s w))" unfolding ms' .
      show "entry_ok s' w (k, q)"
        using keep [OF inv_entry(2) [OF iw 2]] fresh [of k q] 2 by simp
    qed
  qed
qed

lemma BecomeMonitorConn_inv:
  assumes inv: "\<forall>v. worker_inv s v"
    and g: "map_find (conns (workers s w)) (conn_fd (store s c)) = Some c
          \<or> map_find (monitor_conns (workers s w)) (conn_fd (store s c)) = Some c"
  shows "worker_inv (BecomeMonitorConn w c s) v"
proof -
  define fd where "fd = conn_fd (store s c)"
  define s2 where "s2 = upd_worker w (\<lambda>k. k\<lparr>monitor_conns := map_put fd c (monitor_conns k)\<rparr>)
      (upd_worker w (\<lambda>k. k\<lparr>conns := map_erase fd (conns k)\<rparr>) s)"
  have res: "BecomeMonitorConn w c s = EnableFlag c kMonitor (IncrMonitorClientNum s2)"
    by (simp add: BecomeMonitorConn_def Let_def s2_def fd_def)
  have iw: "worker_inv s w" and iv: "worker_inv s v" using inv by simp_all
  have member: "(fd, c) \<in> set (conns (workers s w)) \<union> set (monitor_conns (workers s w))"
    using g map_find_mem unfolding fd_def by blast
  have okc: "entry_ok s w (fd, c)" using member inv_entry [OF iw] by blast
  have "worker_inv s2 v"
  proof (cases "v = w")
    case False
    show ?thesis
    proof (rule worker_inv_same [OF iv])
      show "workers s2 v = workers s v" using False by (simp add: s2_def)
    next
      fix k q assume "entry_ok s v (k, q)"
      then show "entry_ok s2 v (k, q)" by (simp add: entry_ok_pair s2_def)
    qed
  next
    case True
    have cs': "conns (workers s2 w) = map_erase fd (conns (workers s w))"
      and ms': "monitor_conns (workers s2 w) = map_put fd c (monitor_conns (workers s w))"
      by (simp_all add: s2_def)
    have setm: "set (monitor_conns (workers s2 w))
        = insert (fd, c) {e \<in> set (monitor_conns (workers s w)). fst e \<noteq> fd}"
      unfolding ms' by (rule set_map_put [OF inv_sorted(2) [OF iw]])
    have same: "entry_ok s2 w e = entry_ok s w e" for e
      by (simp add: entry_ok_def s2_def)
    show ?thesis unfolding True
    proof (rule worker_invI)
      show "sorted_wrt (<) (map fst (conns (workers s2 w)))"
        unfolding cs' by (rule sorted_map_erase [OF inv_sorted(1) [OF iw]])
      show "sorted_wrt (<) (map fst (monitor_conns (workers s2 w)))"
        unfolding ms' by (rule sorted_map_put [OF inv_sorted(2) [OF iw]])
    next
      fix k q r assume "(k, q) \<in> set (conns (workers s2 w))"
        "(k, r) \<in> set (monitor_conns (workers s2 w))"
      then show False
        unfolding setm cs' using inv_disjoint [OF iw, of k q r] by auto
    next
      fix k q assume "(k, q) \<in> set (conns (workers s2 w))"
      then have "(k, q) \<in> set (conns (workers s w))" unfolding cs' by simp
      then show "entry_ok s2 w (k, q)" unfolding same by (rule inv_entry(1) [OF iw])
    next
      fix k q assume "(k, q) \<in> set (monitor_conns (workers s2 w))"
      then consider "(k, q) = (fd, c)" | "(k, q) \<in> set (monitor_conns (workers s w))"
        unfolding setm by blast
      then show "entry_ok s2 w (k, q)" unfolding same
      proof cases
        case 1
        then show "entry_ok s w (k, q)" using okc by simp
      next
        case 2
        then show "entry_ok s w (k, q)" by (rule inv_entry(2) [OF iw])
      qed
    qed
  qed
  then show ?thesis
    by (simp add: res EnableFlag_def IncrMonitorClientNum_def worker_inv_upd_conn)
qed

lemma newConnection_inv:
  assumes inv: "\<forall>v. worker_inv s v"
    and p: "p \<notin> alloc s"
    and m: "map_find (monitor_conns (workers s w)) fd = None"
  shows "worker_inv (newConnection dns w fd keepalive_ok p peer s) v"
proof (cases keepalive_ok)
  case False
  then show ?thesis using inv by (simp add: newConnection_def)
next
  case True
  define s1 where "s1 = s\<lparr>store := (store s)(p := Connection_new dns fd w), alloc := insert p (alloc s)\<rparr>"
  define s2 where "s2 = bufferevent_enable p EV_READ s1"
  obtain st s3 where r: "AddConnection w p s2 = (st, s3)"
    by (cases "AddConnection w p s2")
  define s4 where "s4 = (case peer of
                             Some (host, port) \<Rightarrow> SetAddr p (host @ '':'' @ to_string (int port)) s3
                           | None \<Rightarrow> s3)"
  have i1: "worker_inv s1 u" for u
  proof (rule worker_inv_same [of s u])
    show "worker_inv s u" using inv by simp
    show "workers s1 u = workers s u" by (simp add: s1_def)
  next
    fix k q assume ok: "entry_ok s u (k, q)"
    then have "q \<noteq> p" using p by (auto simp: entry_ok_pair)
    then show "entry_ok s1 u (k, q)" using ok by (simp add: entry_ok_pair s1_def)
  qed
  have "worker_inv s2 u" for u
    using i1 [of u] by (simp add: s2_def bufferevent_enable_def worker_inv_upd_conn)
  then have i2: "\<forall>u. worker_inv s2 u" by blast
  have pc: "store s2 p = (Connection_new dns fd w)\<lparr>bev_events := {EV_READ}\<rparr>"
    by (simp add: s2_def s1_def bufferevent_enable_def Connection_new_def)
  have "worker_inv (snd (AddConnection w p s2)) u" for u
  proof (rule AddConnection_inv [OF i2])
    show "p \<in> alloc s2" by (simp add: s2_def s1_def bufferevent_enable_def)
    show "owner (store s2 p) = w" by (simp add: pc Connection_new_def)
    show "map_find (monitor_conns (workers s2 w)) (conn_fd (store s2 p)) = None"
      using m by (simp add: pc Connection_new_def) (simp add: s2_def s1_def bufferevent_enable_def)
  qed
  then have i3: "worker_inv s3 u" for u by (simp add: r)
  have i4: "worker_inv s4 u" for u
    using i3 [of u] by (simp add: s4_def SetAddr_def worker_inv_upd_conn split: option.splits)
  have res: "newConnection dns w fd keepalive_ok p peer s =
      (if \<not> IsOK st
       then RemoveConnection w (conn_fd (store s4 p))
              (s4\<lparr>sock_log := sock_log s4 @ [Wrote fd (Redis_Error (''ERR '' @ Msg st))]\<rparr>)
       else s4)"
    unfolding newConnection_def Let_def s1_def [symmetric] s2_def [symmetric] r prod.case
      s4_def [symmetric]
    using True by simp
  show ?thesis
    unfolding res using i4 by (simp add: RemoveConnection_inv)
qed


lemma exec_inv:
  assumes "\<forall>v. worker_inv s v" "op_ok w a s"
  shows "worker_inv (exec dns w a s) v"
proof (cases a)
  case (Accept fd keepalive_ok p peer)
  then show ?thesis using assms by (simp add: newConnection_inv)
next
  case (Admit c)
  then show ?thesis using assms by (simp add: AddConnection_inv)
next
  case (Remove fd)
  then show ?thesis using assms by (simp add: RemoveConnection_inv)
next
  case (RemoveByID fd i)
  then show ?thesis using assms by (simp add: RemoveConnectionByID_inv)
next
  case (EnableWrite fd)
  then show ?thesis using assms by (simp add: EnableWriteEvent_inv)
next
  case (SendReply fd bytes)
  then show ?thesis using assms by (simp add: Reply_inv)
next
  case (Promote c)
  then show ?thesis using assms BecomeMonitorConn_inv [of s w c v] by simp
next
  case (Feed tv_sec tv_usec src tokens)
  then show ?thesis using assms by (simp add: FeedMonitorConns_inv)
next
  case (Kill self i a' skipme)
  then show ?thesis using assms by (simp add: KillClient_inv)
next
  case Timer
  then show ?thesis using assms by (simp add: TimerCB_inv)
qed

lemma run_inv:
  "\<forall>v. worker_inv s v \<Longrightarrow> valid_run dns evs s \<Longrightarrow> worker_inv (run dns evs s) v"
proof (induction evs arbitrary: s)
  case Nil
  then show ?case by simp
next
  case (Cons e evs)
  have "\<forall>v. worker_inv (exec dns (fst e) (snd e) s) v"
    using exec_inv [of s "fst e" "snd e" dns] Cons.prems by simp
  then show ?case using Cons.IH Cons.prems by simp
qed


lemma inv_members:
  assumes "worker_inv s v" "e \<in> set (conns (workers s v) @ monitor_conns (workers s v))"
  shows "entry_ok s v e"
  using assms inv_entry [of s v "fst e" "snd e"] by auto

lemma inv_distinct_ptrs:
  assumes "worker_inv s v"
  shows "distinct (map snd (conns (workers s v) @ monitor_conns (workers s v)))"
proof -
  let ?xs = "conns (workers s v) @ monitor_conns (workers s v)"
  have dk: "distinct (map fst ?xs)"
    using assms sorted_keys_distinct [of "conns (workers s v)"]
      sorted_keys_distinct [of "monitor_conns (workers s v)"]
    by (simp add: worker_inv_def)
  then have d: "distinct ?xs" by (simp only: distinct_map)
  have "inj_on snd (set ?xs)"
  proof (rule inj_onI)
    fix e1 e2 assume a: "e1 \<in> set ?xs" "e2 \<in> set ?xs" "snd e1 = snd e2"
    have "fst e1 = conn_fd (store s (snd e1))" "fst e2 = conn_fd (store s (snd e2))"
      using inv_members [OF assms a(1)] inv_members [OF assms a(2)] by (simp_all add: entry_ok_def)
    then show "e1 = e2" using a(3) by (simp add: prod_eq_iff)
  qed
  then show ?thesis using d by (simp only: distinct_map)
qed

lemma inv_exclusive:
  assumes "\<forall>v. worker_inv s v"
  shows "exclusive s"
  unfolding exclusive_def
proof (intro allI conjI ballI)
  fix v
  have iv: "worker_inv s v" using assms by simp
  show "distinct (map snd (conns (workers s v) @ monitor_conns (workers s v)))"
    by (rule inv_distinct_ptrs [OF iv])
  show "table_ptrs s v \<subseteq> alloc s"
    using inv_entry [OF iv] by (auto simp: table_ptrs_def entry_ok_pair)
  fix p assume "p \<in> table_ptrs s v"
  then show "owner (store s p) = v"
    using inv_entry [OF iv] by (auto simp: table_ptrs_def entry_ok_pair)
qed


lemma table_ptrs_simps [simp]:
  "table_ptrs (upd_svr f s) v = table_ptrs s v"
  "table_ptrs (upd_conn p g s) v = table_ptrs s v"
  "table_ptrs (delete_conn p s) v = table_ptrs s v"
  by (simp_all add: table_ptrs_def)

lemma removed_destroyed_refl: "removed_destroyed s s"
  by (simp add: removed_destroyed_def)

lemma removed_destroyed_trans:
  "removed_destroyed s s1 \<Longrightarrow> removed_destroyed s1 s2 \<Longrightarrow> alloc s2 \<subseteq> alloc s1 \<Longrightarrow>
   removed_destroyed s s2"
  unfolding removed_destroyed_def by blast

lemma removed_destroyed_svr [simp]:
  "removed_destroyed s (upd_svr f s') = removed_destroyed s s'"
  by (simp add: removed_destroyed_def)

lemma sorted_key_unique:
  fixes m :: conn_map
  assumes "sorted_wrt (<) (map fst m)" "(k, p) \<in> set m" "(k, q) \<in> set m"
  shows "p = q"
  using assms sorted_keys_distinct [OF assms(1)] by (meson eq_key_imp_eq_value)

lemma erase_conns_destroyed:
  assumes "sorted_wrt (<) (map fst (conns (workers s w)))"
    and "map_find (conns (workers s w)) fd = Some p"
  shows "removed_destroyed s
      (upd_worker w (\<lambda>k. k\<lparr>conns := map_erase fd (conns k)\<rparr>) (delete_conn p s))"
  unfolding removed_destroyed_def
proof (intro allI impI)
  fix v q
  let ?s' = "upd_worker w (\<lambda>k. k\<lparr>conns := map_erase fd (conns k)\<rparr>) (delete_conn p s)"
  assume a: "q \<in> table_ptrs s v \<and> q \<notin> table_ptrs ?s' v"
  have mem: "(fd, p) \<in> set (conns (workers s w))" using assms(2) by (rule map_find_mem)
  have vw: "v = w" using a by (cases "v = w") (auto simp: table_ptrs_def)
  from a obtain k where k: "(k, q) \<in> set (conns (workers s w))" "k = fd"
    unfolding vw table_ptrs_def by fastforce
  have "q = p" using sorted_key_unique [OF assms(1) _ mem] k by simp
  then show "q \<notin> alloc ?s'" by simp
qed

lemma erase_monitor_destroyed:
  assumes "sorted_wrt (<) (map fst (monitor_conns (workers s w)))"
    and "map_find (monitor_conns (workers s w)) fd = Some p"
  shows "removed_destroyed s
      (upd_worker w (\<lambda>k. k\<lparr>monitor_conns := map_erase fd (monitor_conns k)\<rparr>) (delete_conn p s))"
  unfolding removed_destroyed_def
proof (intro allI impI)
  fix v q
  let ?s' = "upd_worker w (\<lambda>k. k\<lparr>monitor_conns := map_erase fd (monitor_conns k)\<rparr>) (delete_conn p s)"
  assume a: "q \<in> table_ptrs s v \<and> q \<notin> table_ptrs ?s' v"
  have mem: "(fd, p) \<in> set (monitor_conns (workers s w))" using assms(2) by (rule map_find_mem)
  have vw: "v = w" using a by (cases "v = w") (auto simp: table_ptrs_def)
  from a obtain k where k: "(k, q) \<in> set (monitor_conns (workers s w))" "k = fd"
    unfolding vw table_ptrs_def by fastforce
  have "q = p" using sorted_key_unique [OF assms(1) _ mem] k by simp
  then show "q \<notin> alloc ?s'" by simp
qed

lemma RemoveConnectionByID_destroyed:
  assumes "\<forall>v. worker_inv s v"
  shows "removed_destroyed s (RemoveConnectionByID w fd i s)
       \<and> alloc (RemoveConnectionByID w fd i s) \<subseteq> alloc s"
proof -
  define s1 where "s1 = (case map_find (conns (workers s w)) fd of
                  Some p \<Rightarrow>
                    if conn_id (store s p) = i
                    then DecrClientNum
                      (upd_worker w (\<lambda>k. k\<lparr>conns := map_erase fd (conns k)\<rparr>) (delete_conn p s))
                    else s
                | None \<Rightarrow> s)"
  define s2 where "s2 = (case map_find (monitor_conns (workers s1 w)) fd of
           Some p \<Rightarrow>
             if conn_id (store s1 p) = i
             then DecrMonitorClientNum
               (DecrClientNum
                 (upd_worker w (\<lambda>k. k\<lparr>monitor_conns := map_erase fd (monitor_conns k)\<rparr>)
                   (delete_conn p s1)))
             else s1
         | None \<Rightarrow> s1)"
  have res: "RemoveConnectionByID w fd i s = s2"
    unfolding RemoveConnectionByID_def Let_def s1_def [symmetric] s2_def [symmetric] ..
  have i1: "worker_inv s1 u" for u
    unfolding s1_def using assms
    by (simp add: DecrClientNum_def erase_conns_inv split: option.splits)
  have d1: "removed_destroyed s s1" and a1: "alloc s1 \<subseteq> alloc s"
    unfolding s1_def using inv_sorted(1) [of s w] assms
    by (auto simp: DecrClientNum_def erase_conns_destroyed removed_destroyed_refl
        split: option.splits)
  have d2: "removed_destroyed s1 s2" and a2: "alloc s2 \<subseteq> alloc s1"
    unfolding s2_def using inv_sorted(2) [OF i1 [of w]]
    by (auto simp: counter_defs erase_monitor_destroyed removed_destroyed_refl
        split: option.splits)
  show ?thesis
    unfolding res using removed_destroyed_trans [OF d1 d2 a2] a1 a2 by blast
qed

lemma RemoveConnection_destroyed:
  assumes "\<forall>v. worker_inv s v"
  shows "removed_destroyed s (RemoveConnection w fd s)
       \<and> alloc (RemoveConnection w fd s) \<subseteq> alloc s"
proof -
  define s1 where "s1 = (case map_find (conns (workers s w)) fd of
                  Some p \<Rightarrow>
                    DecrClientNum
                      (upd_worker w (\<lambda>k. k\<lparr>conns := map_erase fd (conns k)\<rparr>) (delete_conn p s))
                | None \<Rightarrow> s)"
  define s2 where "s2 = (case map_find (monitor_conns (workers s1 w)) fd of
           Some p \<Rightarrow>
             DecrMonitorClientNum
               (DecrClientNum
                 (upd_worker w (\<lambda>k. k\<lparr>monitor_conns := map_erase fd (monitor_conns k)\<rparr>)
                   (delete_conn p s1)))
         | None \<Rightarrow> s1)"
  have res: "RemoveConnection w fd s = s2"
    unfolding RemoveConnection_def Let_def s1_def [symmetric] s2_def [symmetric] ..
  have i1: "worker_inv s1 u" for u
    unfolding s1_def using assms
    by (simp add: DecrClientNum_def erase_conns_inv split: option.splits)
  have d1: "removed_destroyed s s1" and a1: "alloc s1 \<subseteq> alloc s"
    unfolding s1_def using inv_sorted(1) [of s w] assms
    by (auto simp: DecrClientNum_def erase_conns_destroyed removed_destroyed_refl
        split: option.splits)
  have d2: "removed_destroyed s1 s2" and a2: "alloc s2 \<subseteq> alloc s1"
    unfolding s2_def using inv_sorted(2) [OF i1 [of w]]
    by (auto simp: counter_defs erase_monitor_destroyed removed_destroyed_refl
        split: option.splits)
  show ?thesis
    unfolding res using removed_destroyed_trans [OF d1 d2 a2] a1 a2 by blast
qed

lemma AddConnection_destroyed:
  assumes "\<forall>v. worker_inv s v"
  shows "removed_destroyed s (snd (AddConnection w c s))"
proof -
  have so: "sorted_wrt (<) (map fst (conns (workers s w)))"
    using assms by (simp add: inv_sorted)
  have "table_ptrs s v \<subseteq> table_ptrs (snd (AddConnection w c s)) v" for v
  proof (cases "v = w")
    case False
    then show ?thesis by (simp add: AddConnection_eq table_ptrs_def)
  next
    case True
    have "map_find (conns (workers s w)) (conn_fd (store s c)) = None \<Longrightarrow>
      set (conns (workers s w)) \<subseteq> set (map_put (conn_fd (store s c)) c (conns (workers s w)))"
      by (force simp: set_map_put [OF so] map_find_None_iff)
    then show ?thesis unfolding True
      by (auto simp: AddConnection_eq table_ptrs_def)
  qed
  then show ?thesis unfolding removed_destroyed_def by blast
qed

lemma BecomeMonitorConn_destroyed:
  assumes inv: "\<forall>v. worker_inv s v"
    and g: "map_find (conns (workers s w)) (conn_fd (store s c)) = Some c
          \<or> map_find (monitor_conns (workers s w)) (conn_fd (store s c)) = Some c"
  shows "removed_destroyed s (BecomeMonitorConn w c s)"
proof -
  define fd where "fd = conn_fd (store s c)"
  have iw: "worker_inv s w" using inv by simp
  have tp: "table_ptrs (BecomeMonitorConn w c s) v =
      (if v = w then snd ` set (map_erase fd (conns (workers s w)))
                     \<union> snd ` set (map_put fd c (monitor_conns (workers s w)))
       else table_ptrs s v)" for v
    by (simp add: BecomeMonitorConn_def Let_def fd_def EnableFlag_def IncrMonitorClientNum_def
        table_ptrs_def)
  have "table_ptrs s w \<subseteq> snd ` set (map_erase fd (conns (workers s w)))
                     \<union> snd ` set (map_put fd c (monitor_conns (workers s w)))"
  proof
    fix q assume "q \<in> table_ptrs s w"
    then consider k where "(k, q) \<in> set (conns (workers s w))"
      | k where "(k, q) \<in> set (monitor_conns (workers s w))"
      unfolding table_ptrs_def by fastforce
    then show "q \<in> snd ` set (map_erase fd (conns (workers s w)))
                     \<union> snd ` set (map_put fd c (monitor_conns (workers s w)))"
    proof cases
      case 1
      have "conn_fd (store s q) = k" using inv_entry(1) [OF iw 1] by (simp add: entry_ok_pair)
      show ?thesis
      proof (cases "k = fd")
        case True
        have "(fd, c) \<in> set (conns (workers s w))"
          using g 1 True inv_disjoint [OF iw, of fd q c] map_find_mem unfolding fd_def by blast
        then have "q = c" using sorted_key_unique [OF inv_sorted(1) [OF iw], of fd q c] 1 True by simp
        then show ?thesis by (simp add: set_map_put [OF inv_sorted(2) [OF iw]])
      next
        case False
        then show ?thesis using 1 by force
      qed
    next
      case 2
      show ?thesis
      proof (cases "k = fd")
        case True
        have "(fd, c) \<in> set (monitor_conns (workers s w))"
          using g 2 True inv_disjoint [OF iw, of fd c q] map_find_mem unfolding fd_def by blast
        then have "q = c" using sorted_key_unique [OF inv_sorted(2) [OF iw], of fd q c] 2 True by simp
        then show ?thesis by (simp add: set_map_put [OF inv_sorted(2) [OF iw]])
      next
        case False
        then show ?thesis using 2 by (force simp: set_map_put [OF inv_sorted(2) [OF iw]])
      qed
    qed
  qed
  then show ?thesis unfolding removed_destroyed_def tp by auto
qed


subsection \<open>The sample states\<close>

lemma sample_world_inv: "worker_inv sample_world v"
  by (cases "v = 0")
    (simp_all add: worker_inv_def entry_ok_def sample_world_def sample_conn_def
      Connection_new_def empty_worker_def)

lemma pending_world_inv: "worker_inv pending_world v"
  by (cases "v = 0")
    (simp_all add: worker_inv_def entry_ok_def pending_world_def sample_world_def sample_conn_def
      Connection_new_def empty_worker_def)

lemmas eval_defs = newConnection_def AddConnection_eq RemoveConnection_def
  RemoveConnectionByID_def BecomeMonitorConn_def Connection_new_def bufferevent_enable_def
  EnableFlag_def SetAddr_def upd_conn_def upd_worker_def upd_svr_def delete_conn_def
  counter_defs map_find_def map_erase_def Let_def

text \<open>The execution \<open>demo_run\<close>: Connection 15 is admitted (it draws id 6) and promoted to
  monitor, Worker 0 accepts a Connection 16 on descriptor 30 (id 7), Worker 1 accepts a
  Connection 17 on descriptor 31 (id 8), and Worker 0's client on descriptor 7 is removed.\<close>

lemma demo_eval:
  "valid_run ''dflt'' demo_run pending_world
   \<and> conns (workers (run ''dflt'' demo_run pending_world) 0) = [(3, 10), (30, 16)]
   \<and> monitor_conns (workers (run ''dflt'' demo_run pending_world) 0)
       = [(5, 12), (9, 13), (15, 14), (20, 15)]
   \<and> conn_id (store (run ''dflt'' demo_run pending_world) 15) = 6
   \<and> conn_id (store (run ''dflt'' demo_run pending_world) 16) = 7
   \<and> conns (workers (run ''dflt'' demo_run pending_world) 1) = [(31, 17)]
   \<and> monitor_conns (workers (run ''dflt'' demo_run pending_world) 1) = []
   \<and> conn_id (store (run ''dflt'' demo_run pending_world) 17) = 8
   \<and> 11 \<notin> alloc (run ''dflt'' demo_run pending_world)
   \<and> 16 \<in> alloc (run ''dflt'' demo_run pending_world)"
  by (simp add: demo_run_def pending_world_def sample_world_def sample_conn_def empty_worker_def
      eval_defs)

section \<open>Reply and EnableWriteEvent on a monitor\<close>

text \<open>
  Claim C9. \<open>Reply\<close> and \<open>EnableWriteEvent\<close> look the descriptor up in the normal table only.
  For a Connection in the monitor table of a Worker whose tables are in order (so that its
  descriptor is not in the normal table) both return a status that is not OK and leave the
  whole state, so the Connection's output buffer and event mask, as it was; the Connection
  is allocated. \<open>BecomeMonitorConn\<close> puts a Connection into the monitor table under its
  descriptor.
\<close>

theorem monitor_out_of_reach_of_Reply:
  assumes "worker_inv s w" and "map_find (monitor_conns (workers s w)) fd = Some p"
  shows "fst (Reply w fd bytes s) \<noteq> OK \<and> snd (Reply w fd bytes s) = s
       \<and> fst (EnableWriteEvent w fd s) \<noteq> OK \<and> snd (EnableWriteEvent w fd s) = s
       \<and> p \<in> alloc s
       \<and> map_find (monitor_conns (workers (BecomeMonitorConn w c s) w)) (conn_fd (store s c)) = Some c"
proof -
  have mem: "(fd, p) \<in> set (monitor_conns (workers s w))" using assms(2) by (rule map_find_mem)
  have "fd \<notin> fst ` set (conns (workers s w))"
    using inv_disjoint [OF assms(1) _ mem] by auto
  then have n: "map_find (conns (workers s w)) fd = None" by (simp add: map_find_None_iff)
  have "p \<in> alloc s" using inv_entry(2) [OF assms(1) mem] by (simp add: entry_ok_pair)
  moreover have "map_find (monitor_conns (workers (BecomeMonitorConn w c s) w)) (conn_fd (store s c)) = Some c"
    by (simp add: BecomeMonitorConn_def Let_def EnableFlag_def IncrMonitorClientNum_def
        map_find_map_put)
  ultimately show ?thesis using n by (simp add: Reply_def EnableWriteEvent_def)
qed

text \<open>On the sample state: descriptor 5 is monitor 12's.\<close>

theorem monitor_out_of_reach_of_Reply_witness:
  "worker_inv sample_world 0 \<and> map_find (monitor_conns (workers sample_world 0)) 5 = Some 12
   \<and> \<not> IsOK (fst (Reply 0 5 ''+OK'' sample_world))
   \<and> \<not> IsOK (fst (EnableWriteEvent 0 5 sample_world))
   \<and> conn_output (store (snd (Reply 0 5 ''+OK'' sample_world)) 12) = []
   \<and> bev_events (store (snd (EnableWriteEvent 0 5 sample_world)) 12) = {}"
proof -
  have h: "map_find (monitor_conns (workers sample_world 0)) 5 = Some 12"
    by (simp add: sample_world_def map_find_def)
  have o: "conn_output (store sample_world 12) = []" "bev_events (store sample_world 12) = {}"
    by (simp_all add: sample_world_def sample_conn_def Connection_new_def)
  show ?thesis
    using monitor_out_of_reach_of_Reply [OF sample_world_inv h, of "''+OK''" 12] h o
      sample_world_inv [of 0]
    by (cases "fst (Reply 0 5 ''+OK'' sample_world)";
        cases "fst (EnableWriteEvent 0 5 sample_world)") simp_all
qed

section \<open>Ids are set before a Connection can be seen\<close>

text \<open>
  Claim C3. \<open>AddConnection\<close> inserts the Connection and sets its id in one section under
  the table lock (lines 141 to 143), that is in one step; \<open>GetClientsStr\<close>, \<open>KillClient\<close>,
  \<open>RemoveConnectionByID\<close> and \<open>Reply\<close> read the tables under the same lock, that is between
  steps. From a state whose tables are in order (the initial state, with empty tables, is
  one), after every execution each Connection in a table of any Worker has had its id set.
  When \<open>AddConnection\<close> returns OK the Connection is in the normal table with its id set to
  the value drawn from the counter.
\<close>

theorem ids_assigned_before_visible:
  assumes "\<forall>v. worker_inv s v" and "valid_run dns evs s"
  shows "list_all (\<lambda>e. id_assigned (store (run dns evs s) (snd e)))
           (conns (workers (run dns evs s) v) @ monitor_conns (workers (run dns evs s) v))
     \<and> (fst (AddConnection w c s) = OK \<longrightarrow>
          map_find (conns (workers (snd (AddConnection w c s)) w)) (conn_fd (store s c)) = Some c
          \<and> id_assigned (store (snd (AddConnection w c s)) c)
          \<and> conn_id (store (snd (AddConnection w c s)) c) = next_id (svr s))"
proof -
  have "worker_inv (run dns evs s) v" by (rule run_inv [OF assms])
  then have "list_all (\<lambda>e. id_assigned (store (run dns evs s) (snd e)))
           (conns (workers (run dns evs s) v) @ monitor_conns (workers (run dns evs s) v))"
    by (auto simp: worker_inv_def list_all_iff entry_ok_def)
  moreover have "fst (AddConnection w c s) = OK \<longrightarrow>
          map_find (conns (workers (snd (AddConnection w c s)) w)) (conn_fd (store s c)) = Some c
          \<and> id_assigned (store (snd (AddConnection w c s)) c)
          \<and> conn_id (store (snd (AddConnection w c s)) c) = next_id (svr s)"
    by (simp add: AddConnection_eq map_find_map_put)
  ultimately show ?thesis by simp
qed

theorem ids_assigned_before_visible_witness:
  "(\<forall>v. worker_inv pending_world v) \<and> valid_run ''dflt'' demo_run pending_world
   \<and> conns (workers (run ''dflt'' demo_run pending_world) 0) = [(3, 10), (30, 16)]
   \<and> monitor_conns (workers (run ''dflt'' demo_run pending_world) 0)
       = [(5, 12), (9, 13), (15, 14), (20, 15)]
   \<and> list_all (\<lambda>e. id_assigned (store (run ''dflt'' demo_run pending_world) (snd e)))
        [(3::int, 10::nat), (30, 16), (5, 12), (9, 13), (15, 14), (20, 15)]
   \<and> fst (AddConnection 0 15 pending_world) = OK
   \<and> conn_id (store (snd (AddConnection 0 15 pending_world)) 15) = 6"
proof -
  have h1: "\<forall>v. worker_inv pending_world v" by (simp add: pending_world_inv)
  have h2: "valid_run ''dflt'' demo_run pending_world" using demo_eval by simp
  have h3: "fst (AddConnection 0 15 pending_world) = OK"
    by (simp add: pending_world_def sample_world_def sample_conn_def empty_worker_def eval_defs)
  show ?thesis
    using ids_assigned_before_visible [OF h1 h2, of 0 0 15] h1 h2 h3 demo_eval
    by (simp add: pending_world_def sample_world_def)
qed

section \<open>Table exclusivity\<close>

text \<open>
  The Connections that are in a table. In a state whose tables are in order every
  Connection in a table stands in exactly one of its owner's two tables, once, and is
  allocated. \<open>AddConnection\<close> (given a
  constructed Connection of the Worker whose descriptor no monitor is on),
  \<open>RemoveConnection\<close>, \<open>RemoveConnectionByID\<close> and \<open>BecomeMonitorConn\<close> (given a Connection
  that is in one of the Worker's tables under its descriptor) lead to such a state again,
  and a Connection that they take out of the tables is deleted.
\<close>

theorem table_exclusivity:
  assumes "\<forall>v. worker_inv s v"
  shows "exclusive s
   \<and> (c \<in> alloc s \<and> owner (store s c) = w
        \<and> map_find (monitor_conns (workers s w)) (conn_fd (store s c)) = None \<longrightarrow>
        (\<forall>v. worker_inv (snd (AddConnection w c s)) v)
        \<and> exclusive (snd (AddConnection w c s))
        \<and> removed_destroyed s (snd (AddConnection w c s)))
   \<and> (\<forall>v. worker_inv (RemoveConnection w fd s) v)
   \<and> exclusive (RemoveConnection w fd s)
   \<and> removed_destroyed s (RemoveConnection w fd s)
   \<and> (\<forall>v. worker_inv (RemoveConnectionByID w fd' i s) v)
   \<and> exclusive (RemoveConnectionByID w fd' i s)
   \<and> removed_destroyed s (RemoveConnectionByID w fd' i s)
   \<and> (map_find (conns (workers s w)) (conn_fd (store s m)) = Some m
        \<or> map_find (monitor_conns (workers s w)) (conn_fd (store s m)) = Some m \<longrightarrow>
        (\<forall>v. worker_inv (BecomeMonitorConn w m s) v)
        \<and> exclusive (BecomeMonitorConn w m s)
        \<and> removed_destroyed s (BecomeMonitorConn w m s))"
proof (intro conjI impI)
  show "exclusive s" by (rule inv_exclusive [OF assms])
next
  assume g: "c \<in> alloc s \<and> owner (store s c) = w
        \<and> map_find (monitor_conns (workers s w)) (conn_fd (store s c)) = None"
  show a: "\<forall>v. worker_inv (snd (AddConnection w c s)) v"
    using AddConnection_inv [OF assms, of c w] g by blast
  show "exclusive (snd (AddConnection w c s))" by (rule inv_exclusive [OF a])
  show "removed_destroyed s (snd (AddConnection w c s))"
    by (rule AddConnection_destroyed [OF assms])
next
  show r: "\<forall>v. worker_inv (RemoveConnection w fd s) v"
    using RemoveConnection_inv [OF assms] by blast
  show "exclusive (RemoveConnection w fd s)" by (rule inv_exclusive [OF r])
  show "removed_destroyed s (RemoveConnection w fd s)"
    using RemoveConnection_destroyed [OF assms] by blast
next
  show r: "\<forall>v. worker_inv (RemoveConnectionByID w fd' i s) v"
    using RemoveConnectionByID_inv [OF assms] by blast
  show "exclusive (RemoveConnectionByID w fd' i s)" by (rule inv_exclusive [OF r])
  show "removed_destroyed s (RemoveConnectionByID w fd' i s)"
    using RemoveConnectionByID_destroyed [OF assms] by blast
next
  assume g: "map_find (conns (workers s w)) (conn_fd (store s m)) = Some m
        \<or> map_find (monitor_conns (workers s w)) (conn_fd (store s m)) = Some m"
  show b: "\<forall>v. worker_inv (BecomeMonitorConn w m s) v"
    using BecomeMonitorConn_inv [OF assms g] by blast
  show "exclusive (BecomeMonitorConn w m s)" by (rule inv_exclusive [OF b])
  show "removed_destroyed s (BecomeMonitorConn w m s)"
    by (rule BecomeMonitorConn_destroyed [OF assms g])
qed

text \<open>On the sample state with the pending Connection 15: it is admitted; the client on
  descriptor 7 is removed and deleted; the client on descriptor 3 is removed by its id 1;
  client 10 is promoted.\<close>

theorem table_exclusivity_witness:
  "(\<forall>v. worker_inv pending_world v)
   \<and> 15 \<in> alloc pending_world \<and> owner (store pending_world 15) = 0
   \<and> map_find (monitor_conns (workers pending_world 0)) (conn_fd (store pending_world 15)) = None
   \<and> map_find (conns (workers pending_world 0)) (conn_fd (store pending_world 10)) = Some 10
   \<and> exclusive pending_world
   \<and> exclusive (snd (AddConnection 0 15 pending_world))
   \<and> conns (workers (snd (AddConnection 0 15 pending_world)) 0) = [(3, 10), (7, 11), (20, 15)]
   \<and> exclusive (RemoveConnection 0 7 pending_world)
   \<and> conns (workers (RemoveConnection 0 7 pending_world) 0) = [(3, 10)]
   \<and> 11 \<notin> alloc (RemoveConnection 0 7 pending_world)
   \<and> exclusive (RemoveConnectionByID 0 3 1 pending_world)
   \<and> 10 \<notin> alloc (RemoveConnectionByID 0 3 1 pending_world)
   \<and> exclusive (BecomeMonitorConn 0 10 pending_world)
   \<and> conns (workers (BecomeMonitorConn 0 10 pending_world) 0) = [(7, 11)]
   \<and> monitor_conns (workers (BecomeMonitorConn 0 10 pending_world) 0)
       = [(3, 10), (5, 12), (9, 13), (15, 14)]"
proof -
  have h: "\<forall>v. worker_inv pending_world v" by (simp add: pending_world_inv)
  have g1: "15 \<in> alloc pending_world \<and> owner (store pending_world 15) = 0
     \<and> map_find (monitor_conns (workers pending_world 0)) (conn_fd (store pending_world 15)) = None"
    by (simp add: pending_world_def sample_world_def Connection_new_def map_find_def)
  have g2: "map_find (conns (workers pending_world 0)) (conn_fd (store pending_world 10)) = Some 10"
    by (simp add: pending_world_def sample_world_def sample_conn_def Connection_new_def
        map_find_def)
  have e: "conns (workers (snd (AddConnection 0 15 pending_world)) 0) = [(3, 10), (7, 11), (20, 15)]
     \<and> conns (workers (RemoveConnection 0 7 pending_world) 0) = [(3, 10)]
     \<and> 11 \<notin> alloc (RemoveConnection 0 7 pending_world)
     \<and> 10 \<notin> alloc (RemoveConnectionByID 0 3 1 pending_world)
     \<and> conns (workers (BecomeMonitorConn 0 10 pending_world) 0) = [(7, 11)]
     \<and> monitor_conns (workers (BecomeMonitorConn 0 10 pending_world) 0)
       = [(3, 10), (5, 12), (9, 13), (15, 14)]"
    by (simp add: pending_world_def sample_world_def sample_conn_def empty_worker_def eval_defs)
  show ?thesis
    using table_exclusivity [OF h, where c = 15 and w = 0 and fd = 7 and fd' = 3 and i = 1
        and m = 10] h g1 g2 e
    by simp
qed

text \<open>
  Claim C8, on the code: a live Connection that is in no table. The server holds its one
  allowed client (descriptor 4) and Worker 0 accepts descriptor 5. \<open>newConnection\<close> constructs
  Connection 101 for it and enables its read event; \<open>AddConnection\<close> rejects it at the cap
  without inserting it, and the \<open>RemoveConnection(5)\<close> that follows finds nothing to delete.
  Afterwards Connection 101 is allocated, owned by Worker 0, its socket is open, and it is
  in neither table of any Worker (the tables are as before, Worker 0's hold Connection 100
  only).
\<close>

theorem rejected_connection_is_in_no_table:
  "(let s' = newConnection ''dflt'' 0 5 True 101 (Some (''10.0.0.2'', 4000)) full_world
    in 101 \<in> alloc s'
       \<and> owner (store s' 101) = 0 \<and> conn_fd (store s' 101) = 5
       \<and> EV_READ \<in> bev_events (store s' 101)
       \<and> Closed 5 \<notin> set (sock_log s')
       \<and> workers s' = workers full_world
       \<and> table_ptrs s' 0 = {100}
       \<and> 101 \<notin> table_ptrs s' 0 \<and> 101 \<notin> table_ptrs s' 1)"
  by (simp add: newConnection_def full_world_def empty_worker_def sample_conn_def
      AddConnection_def RemoveConnection_def Connection_new_def bufferevent_enable_def
      upd_conn_def map_find_def IncrClientNum_def DecrClientNum_def upd_svr_def SetAddr_def
      Let_def table_ptrs_def)

section \<open>Ids follow the counter\<close>

lemma RemoveConnection_client_id:
  "next_id (svr (RemoveConnection w fd s)) = next_id (svr s)"
  by (simp add: RemoveConnection_def Let_def counter_defs split: option.splits)

lemma RemoveConnectionByID_client_id:
  "next_id (svr (RemoveConnectionByID w fd i s)) = next_id (svr s)"
  by (simp add: RemoveConnectionByID_def Let_def counter_defs split: option.splits)

lemma fold_RemoveConnectionByID_client_id:
  "next_id (svr (fold (\<lambda>c. RemoveConnectionByID w (fst c) (snd c)) xs s)) = next_id (svr s)"
  by (induction xs arbitrary: s) (simp_all add: RemoveConnectionByID_client_id)

lemma TimerCB_client_id: "next_id (svr (TimerCB w s)) = next_id (svr s)"
  by (simp add: TimerCB_def KickoutIdleClients_def Let_def fold_RemoveConnectionByID_client_id
      split: prod.splits)

lemma KillClient_client_id:
  "next_id (svr (snd (KillClient w self i a skipme killed s))) = next_id (svr s)"
  by (simp add: KillClient_def fold_kill_one)

lemma fold_feed_one_svr: "svr (fold (feed_one dns src out) xs s) = svr s"
  by (induction xs arbitrary: s) (simp_all add: feed_one_eq)

lemma FeedMonitorConns_client_id:
  "next_id (svr (FeedMonitorConns dns tv_sec tv_usec w src tokens s)) = next_id (svr s)"
  by (simp add: FeedMonitorConns_def Let_def fold_feed_one_svr)

lemma RemoveConnection_erased:
  "map_find (conns (workers (RemoveConnection w fd s) w)) fd = None"
  by (auto simp: RemoveConnection_def Let_def counter_defs map_find_None_iff split: option.splits)

text \<open>The accept callback, by the outcome of the admission.\<close>

lemma newConnection_cases:
  fixes dns :: string
  assumes "op_ok w (Accept fd keepalive_ok p peer) s" "\<forall>v. worker_inv s v"
  defines "s' \<equiv> newConnection dns w fd keepalive_ok p peer s"
  shows "(map_find (conns (workers s' w)) fd = Some p
            \<and> conn_id (store s' p) = next_id (svr s)
            \<and> next_id (svr s') = next_id (svr s) + 1)
       \<or> (map_find (conns (workers s' w)) fd \<noteq> Some p \<and> next_id (svr s') = next_id (svr s))"
proof (cases keepalive_ok)
  case False
  have "(fd, p) \<notin> set (conns (workers s w))"
    using inv_entry(1) [of s w fd p] assms(1,2) by (auto simp: entry_ok_pair)
  then have "map_find (conns (workers s w)) fd \<noteq> Some p"
    using map_find_mem by blast
  then show ?thesis using False by (simp add: s'_def newConnection_def)
next
  case True
  define s1 where "s1 = s\<lparr>store := (store s)(p := Connection_new dns fd w), alloc := insert p (alloc s)\<rparr>"
  define s2 where "s2 = bufferevent_enable p EV_READ s1"
  obtain st s3 where r: "AddConnection w p s2 = (st, s3)"
    by (cases "AddConnection w p s2")
  define s4 where "s4 = (case peer of
                             Some (host, port) \<Rightarrow> SetAddr p (host @ '':'' @ to_string (int port)) s3
                           | None \<Rightarrow> s3)"
  have res: "s' =
      (if \<not> IsOK st
       then RemoveConnection w (conn_fd (store s4 p))
              (s4\<lparr>sock_log := sock_log s4 @ [Wrote fd (Redis_Error (''ERR '' @ Msg st))]\<rparr>)
       else s4)"
    unfolding s'_def newConnection_def Let_def s1_def [symmetric] s2_def [symmetric] r prod.case
      s4_def [symmetric]
    using True by simp
  have s2f: "conn_fd (store s2 p) = fd" "next_id (svr s2) = next_id (svr s)"
    "conns (workers s2 w) = conns (workers s w)"
    by (simp_all add: s2_def s1_def bufferevent_enable_def Connection_new_def)
  have s4f: "conn_fd (store s4 p) = conn_fd (store s3 p)" "next_id (svr s4) = next_id (svr s3)"
    "conns (workers s4 w) = conns (workers s3 w)" "conn_id (store s4 p) = conn_id (store s3 p)"
    by (simp_all add: s4_def SetAddr_def split: option.splits)
  show ?thesis
  proof (cases "st = OK")
    case True
    then have "map_find (conns (workers s3 w)) fd = Some p"
      "conn_id (store s3 p) = next_id (svr s)" "next_id (svr s3) = next_id (svr s) + 1"
      using r s2f by (auto simp: AddConnection_eq map_find_map_put split: if_splits)
    then show ?thesis using True by (simp add: res s4f)
  next
    case False
    then have n: "\<not> IsOK st" by (cases st) simp_all
    have "s3 = s2" using r False by (auto simp: AddConnection_eq split: if_splits)
    then have "conn_fd (store s4 p) = fd" "next_id (svr s4) = next_id (svr s)"
      using s2f s4f by simp_all
    then show ?thesis
      using n by (simp add: res RemoveConnection_erased RemoveConnection_client_id)
  qed
qed

lemma step_ids:
  assumes "op_ok w a s" "\<forall>v. worker_inv s v"
  shows "(admitted_id dns w a s = [next_id (svr s)]
            \<and> next_id (svr (exec dns w a s)) = next_id (svr s) + 1)
       \<or> (admitted_id dns w a s = [] \<and> next_id (svr (exec dns w a s)) = next_id (svr s))"
proof (cases a)
  case (Accept fd keepalive_ok p peer)
  show ?thesis
    using newConnection_cases [of w fd keepalive_ok p peer s dns] assms
    unfolding Accept by (auto simp: admitted_id_def)
next
  case (Admit c)
  then show ?thesis by (simp add: admitted_id_def AddConnection_eq)
next
  case (Remove fd)
  then show ?thesis by (simp add: admitted_id_def RemoveConnection_client_id)
next
  case (RemoveByID fd i)
  then show ?thesis by (simp add: admitted_id_def RemoveConnectionByID_client_id)
next
  case (EnableWrite fd)
  then show ?thesis
    by (simp add: admitted_id_def EnableWriteEvent_def bufferevent_enable_def split: option.splits)
next
  case (SendReply fd bytes)
  then show ?thesis
    by (simp add: admitted_id_def Reply_def Redis_Reply_def split: option.splits)
next
  case (Promote c)
  then show ?thesis
    by (simp add: admitted_id_def BecomeMonitorConn_def Let_def EnableFlag_def counter_defs)
next
  case (Feed tv_sec tv_usec src tokens)
  then show ?thesis by (simp add: admitted_id_def FeedMonitorConns_client_id)
next
  case (Kill self i a' skipme)
  then show ?thesis by (simp add: admitted_id_def KillClient_client_id)
next
  case Timer
  then show ?thesis by (simp add: admitted_id_def TimerCB_client_id)
qed

lemma counter_values_Suc: "counter_values n (Suc k) = n # counter_values (n + 1) k"
proof -
  have "[0..<Suc k] = 0 # map Suc [0..<k]"
    by (simp add: upt_conv_Cons map_Suc_upt del: upt_Suc)
  then show ?thesis by (simp add: counter_values_def comp_def add.assoc del: upt_Suc)
qed

lemma run_ids_counter:
  "\<forall>v. worker_inv s v \<Longrightarrow> valid_run dns evs s \<Longrightarrow>
   run_ids dns evs s = counter_values (next_id (svr s)) (length (run_ids dns evs s))
   \<and> next_id (svr (run dns evs s)) = next_id (svr s) + of_nat (length (run_ids dns evs s))"
proof (induction evs arbitrary: s)
  case Nil
  show ?case by (simp add: counter_values_def)
next
  case (Cons e evs)
  define s1 where "s1 = exec dns (fst e) (snd e) s"
  have ok: "op_ok (fst e) (snd e) s" and v: "valid_run dns evs s1"
    using Cons.prems(2) by (simp_all add: s1_def)
  have i1: "\<forall>v. worker_inv s1 v"
    unfolding s1_def using exec_inv [OF Cons.prems(1) ok] by blast
  note IH = Cons.IH [OF i1 v]
  from step_ids [OF ok Cons.prems(1), of dns]
  show ?case
  proof
    assume a: "admitted_id dns (fst e) (snd e) s = [next_id (svr s)]
            \<and> next_id (svr (exec dns (fst e) (snd e) s)) = next_id (svr s) + 1"
    then have c1: "next_id (svr s1) = next_id (svr s) + 1" by (simp add: s1_def)
    show ?thesis
      using a IH unfolding c1
      by (simp add: counter_values_Suc add.assoc flip: s1_def)
  next
    assume a: "admitted_id dns (fst e) (snd e) s = []
            \<and> next_id (svr (exec dns (fst e) (snd e) s)) = next_id (svr s)"
    then have c1: "next_id (svr s1) = next_id (svr s)" by (simp add: s1_def)
    show ?thesis
      using a IH unfolding c1 by (simp flip: s1_def)
  qed
qed

lemma unat_of_nat_64: "i < 2 ^ 64 \<Longrightarrow> unat (of_nat i :: 64 word) = i"
proof -
  assume a: "i < 2 ^ 64"
  have l: "LENGTH(64) = 64" by simp
  have "unat (of_nat i :: 64 word) = i mod 2 ^ LENGTH(64)" by (rule unat_of_nat)
  also have "\<dots> = i" unfolding l using a by (rule mod_less)
  finally show ?thesis .
qed

lemma of_nat_64_inj:
  assumes "i < 2 ^ 64" "j < 2 ^ 64" "(of_nat i :: 64 word) = of_nat j"
  shows "i = j"
proof -
  have "i = unat (of_nat i :: 64 word)"
    by (rule unat_of_nat_64 [OF assms(1), symmetric])
  also have "\<dots> = unat (of_nat j :: 64 word)"
    by (rule arg_cong [OF assms(3)])
  also have "\<dots> = j"
    by (rule unat_of_nat_64 [OF assms(2)])
  finally show ?thesis .
qed

lemma distinct_counter_values:
  assumes "k \<le> 2 ^ 64"
  shows "distinct (counter_values n k)"
proof -
  have "inj_on (\<lambda>j. n + of_nat j) (set [0..<k])"
  proof (rule inj_onI)
    fix i j assume a: "i \<in> set [0..<k]" "j \<in> set [0..<k]" "n + of_nat i = n + of_nat j"
    then have "i < k" "j < k" by simp_all
    then have "i < 2 ^ 64" "j < 2 ^ 64" using assms by (blast intro: less_le_trans)+
    moreover have "(of_nat i :: 64 word) = of_nat j" using a(3) by (simp only: add_left_cancel)
    ultimately show "i = j" by (rule of_nat_64_inj)
  qed
  then show ?thesis by (simp add: counter_values_def distinct_map)
qed

lemma unat_counter:
  assumes "unat n + j < 2 ^ 64"
  shows "unat (n + of_nat j :: 64 word) = unat n + j"
proof -
  have "j \<le> unat n + j" by simp
  then have "j < 2 ^ 64" using assms by (rule le_less_trans)
  then have j: "unat (of_nat j :: 64 word) = j" by (rule unat_of_nat_64)
  have l: "LENGTH(64) = 64" by simp
  have "unat n + unat (of_nat j :: 64 word) < 2 ^ LENGTH(64)" unfolding j l by (rule assms)
  then have "unat (n + of_nat j) = unat n + unat (of_nat j :: 64 word)"
    by (simp only: unat_add_lem)
  then show ?thesis unfolding j .
qed

lemma sorted_counter_values:
  assumes "unat n + k \<le> 2 ^ 64"
  shows "sorted_wrt (<) (counter_values n k)"
proof -
  have "n + of_nat i < n + of_nat j" if "i < j" "j < k" for i j
  proof -
    have "unat n + j < unat n + k" using that(2) by simp
    then have bj: "unat n + j < 2 ^ 64" using assms by (rule less_le_trans)
    have "unat n + i < unat n + j" using that(1) by simp
    then have bi: "unat n + i < 2 ^ 64" using bj by (rule less_trans)
    have "unat (n + of_nat i) = unat n + i" "unat (n + of_nat j) = unat n + j"
      by (rule unat_counter [OF bi], rule unat_counter [OF bj])
    then show ?thesis using that(1) by (simp only: word_less_nat_alt nat_add_left_cancel_less)
  qed
  then show ?thesis
    by (simp add: counter_values_def sorted_wrt_map sorted_wrt_iff_nth_less)
qed


text \<open>
  Claim C7, as amended. In an execution from a state whose tables are in order, the ids
  given out are the successive values of the 64-bit counter \<open>next_id\<close>, starting at its
  value \<open>n\<close> in the first state: \<open>n, n + 1, ...\<close> modulo \<open>2^64\<close>, one per admitted
  Connection, and the counter ends that many further. They are pairwise distinct as long as
  no more than \<open>2^64\<close> ids are given out, and strictly increasing as long as the counter
  does not wrap around (\<open>n\<close> plus their number is at most \<open>2^64\<close>).
\<close>

theorem ids_follow_the_counter:
  assumes "\<forall>v. worker_inv s v" and "valid_run dns evs s"
  shows "run_ids dns evs s = counter_values (next_id (svr s)) (length (run_ids dns evs s))
     \<and> next_id (svr (run dns evs s)) = next_id (svr s) + of_nat (length (run_ids dns evs s))
     \<and> (length (run_ids dns evs s) \<le> 2 ^ 64 \<longrightarrow> distinct (run_ids dns evs s))
     \<and> (unat (next_id (svr s)) + length (run_ids dns evs s) \<le> 2 ^ 64 \<longrightarrow>
          sorted_wrt (<) (run_ids dns evs s))"
proof -
  define k where "k = length (run_ids dns evs s)"
  have c: "run_ids dns evs s = counter_values (next_id (svr s)) k"
    and e: "next_id (svr (run dns evs s)) = next_id (svr s) + of_nat k"
    using run_ids_counter [OF assms] by (simp_all add: k_def)
  have d: "k \<le> 2 ^ 64 \<longrightarrow> distinct (run_ids dns evs s)"
    unfolding c by (rule impI) (rule distinct_counter_values)
  have o: "unat (next_id (svr s)) + k \<le> 2 ^ 64 \<longrightarrow> sorted_wrt (<) (run_ids dns evs s)"
    unfolding c by (rule impI) (rule sorted_counter_values)
  show ?thesis
    unfolding k_def [symmetric] using c e d o by (intro conjI)
qed

text \<open>On the sample execution: the Connections 15 and 16 of Worker 0 and 17 of Worker 1 are
  admitted and get the ids 6, 7 and 8.\<close>

theorem ids_follow_the_counter_witness:
  "(\<forall>v. worker_inv pending_world v) \<and> valid_run ''dflt'' demo_run pending_world
   \<and> next_id (svr pending_world) = 6
   \<and> run_ids ''dflt'' demo_run pending_world = [6, 7, 8]
   \<and> next_id (svr (run ''dflt'' demo_run pending_world)) = 9
   \<and> distinct (run_ids ''dflt'' demo_run pending_world)
   \<and> sorted_wrt (<) (run_ids ''dflt'' demo_run pending_world)"
proof -
  have h1: "\<forall>v. worker_inv pending_world v" by (simp add: pending_world_inv)
  have h2: "valid_run ''dflt'' demo_run pending_world" using demo_eval by simp
  have n: "next_id (svr pending_world) = 6"
    by (simp add: pending_world_def sample_world_def)
  have ids: "run_ids ''dflt'' demo_run pending_world = [6, 7, 8]"
    by (simp add: admitted_id_def demo_run_def pending_world_def sample_world_def
        sample_conn_def empty_worker_def eval_defs)
  note t = ids_follow_the_counter [OF h1 h2]
  have "length (run_ids ''dflt'' demo_run pending_world) \<le> 2 ^ 64"
    "unat (next_id (svr pending_world)) + length (run_ids ''dflt'' demo_run pending_world)
       \<le> 2 ^ 64"
    unfolding ids n by simp_all
  then have "distinct (run_ids ''dflt'' demo_run pending_world)"
    "sorted_wrt (<) (run_ids ''dflt'' demo_run pending_world)"
    using t by blast+
  moreover have "next_id (svr (run ''dflt'' demo_run pending_world)) = 9"
    using t [THEN conjunct2, THEN conjunct1] unfolding ids n by simp
  ultimately show ?thesis using h1 h2 n ids by simp
qed

text \<open>
  Claim C7 as stated does not hold when the counter wraps around: with the counter at
  \<open>2^64 - 1\<close>, the first Connection accepted gets the id \<open>2^64 - 1\<close> and the second the
  id 0, which is not greater.
\<close>

theorem ids_wrap_around_counterexample:
  "valid_run ''dflt'' wrap_run wrap_world
   \<and> run_ids ''dflt'' wrap_run wrap_world = [18446744073709551615, 0]
   \<and> \<not> sorted_wrt (<) (run_ids ''dflt'' wrap_run wrap_world)"
proof -
  have "valid_run ''dflt'' wrap_run wrap_world
   \<and> run_ids ''dflt'' wrap_run wrap_world = [18446744073709551615, 0]"
    by (simp add: admitted_id_def wrap_run_def wrap_world_def empty_worker_def eval_defs)
  then show ?thesis by simp
qed

section \<open>Admission and the client cap\<close>

lemma length_map_put:
  "k \<notin> fst ` set m \<Longrightarrow> length (map_put k v m) = Suc (length m)"
  by (induction m) auto

lemma sum_one_more:
  fixes f g :: "nat \<Rightarrow> int"
  assumes "finite W" "w \<in> W" "g w = f w + d" "\<And>v. v \<noteq> w \<Longrightarrow> g v = f v"
  shows "sum g W = sum f W + d"
proof -
  have "sum g W = g w + sum g (W - {w})" using assms(1,2) by (rule sum.remove)
  also have "sum g (W - {w}) = sum f (W - {w})" using assms(4) by (intro sum.cong) auto
  also have "g w + sum f (W - {w}) = (f w + sum f (W - {w})) + d" using assms(3) by simp
  also have "f w + sum f (W - {w}) = sum f W" using assms(1,2) by (rule sum.remove [symmetric])
  finally show ?thesis .
qed

lemma table_count_cong:
  "(\<And>v. v \<in> W \<Longrightarrow> workers s' v = workers s v) \<Longrightarrow> table_count W s' = table_count W s"
  by (simp add: table_count_def)

lemma slack_same:
  "svr s' = svr s \<Longrightarrow> workers s' = workers s \<Longrightarrow> slack W s' = slack W s"
  by (simp add: slack_def table_count_def)

lemma length_map_erase:
  fixes m :: conn_map
  assumes "sorted_wrt (<) (map fst m)" "(k, p) \<in> set m"
  shows "int (length (map_erase k m)) = int (length m) - 1"
proof -
  have d: "distinct (map fst m)" by (rule sorted_keys_distinct [OF assms(1)])
  have "length (filter (\<lambda>e. fst e = k) m) = 1"
    using d assms(2)
  proof (induction m)
    case Nil
    then show ?case by simp
  next
    case (Cons e m)
    show ?case
    proof (cases "fst e = k")
      case True
      then have "\<forall>x \<in> set m. fst x \<noteq> k" using Cons.prems(1) by (auto simp: image_iff)
      then have "filter (\<lambda>e. fst e = k) m = []" by (simp add: filter_empty_conv)
      then show ?thesis using True by simp
    next
      case False
      then show ?thesis using Cons by auto
    qed
  qed
  moreover have "length m = length (filter (\<lambda>e. fst e = k) m) + length (filter (\<lambda>e. fst e \<noteq> k) m)"
    by (rule sum_length_filter_compl [symmetric])
  ultimately show ?thesis by (simp add: map_erase_def)
qed

lemma length_map_erase_absent:
  "k \<notin> fst ` set m \<Longrightarrow> map_erase k m = m"
  by (auto simp: map_erase_def intro!: filter_True)

lemma length_map_put_present:
  fixes m :: conn_map
  shows "sorted_wrt (<) (map fst m) \<Longrightarrow> k \<in> fst ` set m \<Longrightarrow> length (map_put k v m) = length m"
proof (induction m)
  case Nil
  then show ?case by simp
next
  case (Cons e m)
  obtain k' v' where e: "e = (k', v')" by (cases e)
  have above: "\<forall>x \<in> set m. k' < fst x" and so: "sorted_wrt (<) (map fst m)"
    using Cons.prems(1) e by auto
  consider "k < k'" | "k = k'" | "k' < k" by linarith
  then show ?case
  proof cases
    case 1
    then have "k \<notin> fst ` set (e # m)" using above e by force
    then show ?thesis using Cons.prems(2) by simp
  next
    case 2
    then show ?thesis using e by simp
  next
    case 3
    then have "k \<in> fst ` set m" using Cons.prems(2) e by auto
    then show ?thesis using 3 e Cons.IH [OF so] by simp
  qed
qed

lemma erase_conns_slack:
  assumes "finite W" "w \<in> W" "sorted_wrt (<) (map fst (conns (workers s w)))"
    and "map_find (conns (workers s w)) fd = Some p"
  shows "slack W (DecrClientNum
      (upd_worker w (\<lambda>k. k\<lparr>conns := map_erase fd (conns k)\<rparr>) (delete_conn p s))) = slack W s"
    (is "slack W ?s' = _")
proof -
  have mem: "(fd, p) \<in> set (conns (workers s w))" using assms(4) by (rule map_find_mem)
  have "table_count W ?s' = table_count W s + (- 1)"
    unfolding table_count_def
    by (rule sum_one_more [OF assms(1,2)])
      (simp_all add: DecrClientNum_def length_map_erase [OF assms(3) mem])
  then show ?thesis by (simp add: slack_def DecrClientNum_def)
qed

lemma erase_monitor_slack:
  assumes "finite W" "w \<in> W" "sorted_wrt (<) (map fst (monitor_conns (workers s w)))"
    and "map_find (monitor_conns (workers s w)) fd = Some p"
  shows "slack W (DecrMonitorClientNum (DecrClientNum
      (upd_worker w (\<lambda>k. k\<lparr>monitor_conns := map_erase fd (monitor_conns k)\<rparr>)
        (delete_conn p s)))) = slack W s"
    (is "slack W ?s' = _")
proof -
  have mem: "(fd, p) \<in> set (monitor_conns (workers s w))" using assms(4) by (rule map_find_mem)
  have "table_count W ?s' = table_count W s + (- 1)"
    unfolding table_count_def
    by (rule sum_one_more [OF assms(1,2)])
      (simp_all add: counter_defs length_map_erase [OF assms(3) mem])
  then show ?thesis by (simp add: slack_def counter_defs)
qed

lemma RemoveConnectionByID_slack:
  assumes "finite W" "w \<in> W" "\<forall>v. worker_inv s v"
  shows "slack W (RemoveConnectionByID w fd i s) = slack W s"
proof -
  define s1 where "s1 = (case map_find (conns (workers s w)) fd of
                  Some p \<Rightarrow>
                    if conn_id (store s p) = i
                    then DecrClientNum
                      (upd_worker w (\<lambda>k. k\<lparr>conns := map_erase fd (conns k)\<rparr>) (delete_conn p s))
                    else s
                | None \<Rightarrow> s)"
  define s2 where "s2 = (case map_find (monitor_conns (workers s1 w)) fd of
           Some p \<Rightarrow>
             if conn_id (store s1 p) = i
             then DecrMonitorClientNum
               (DecrClientNum
                 (upd_worker w (\<lambda>k. k\<lparr>monitor_conns := map_erase fd (monitor_conns k)\<rparr>)
                   (delete_conn p s1)))
             else s1
         | None \<Rightarrow> s1)"
  have res: "RemoveConnectionByID w fd i s = s2"
    unfolding RemoveConnectionByID_def Let_def s1_def [symmetric] s2_def [symmetric] ..
  have i1: "worker_inv s1 u" for u
    unfolding s1_def using assms(3)
    by (simp add: DecrClientNum_def erase_conns_inv split: option.splits)
  have d1: "slack W s1 = slack W s"
    unfolding s1_def using inv_sorted(1) [of s w] assms
    by (simp add: erase_conns_slack split: option.splits)
  have d2: "slack W s2 = slack W s1"
    unfolding s2_def using inv_sorted(2) [OF i1 [of w]] assms(1,2)
    by (simp add: erase_monitor_slack split: option.splits)
  show ?thesis unfolding res using d1 d2 by simp
qed

lemma RemoveConnection_slack:
  assumes "finite W" "w \<in> W" "\<forall>v. worker_inv s v"
  shows "slack W (RemoveConnection w fd s) = slack W s"
proof -
  define s1 where "s1 = (case map_find (conns (workers s w)) fd of
                  Some p \<Rightarrow>
                    DecrClientNum
                      (upd_worker w (\<lambda>k. k\<lparr>conns := map_erase fd (conns k)\<rparr>) (delete_conn p s))
                | None \<Rightarrow> s)"
  define s2 where "s2 = (case map_find (monitor_conns (workers s1 w)) fd of
           Some p \<Rightarrow>
             DecrMonitorClientNum
               (DecrClientNum
                 (upd_worker w (\<lambda>k. k\<lparr>monitor_conns := map_erase fd (monitor_conns k)\<rparr>)
                   (delete_conn p s1)))
         | None \<Rightarrow> s1)"
  have res: "RemoveConnection w fd s = s2"
    unfolding RemoveConnection_def Let_def s1_def [symmetric] s2_def [symmetric] ..
  have i1: "worker_inv s1 u" for u
    unfolding s1_def using assms(3)
    by (simp add: DecrClientNum_def erase_conns_inv split: option.splits)
  have d1: "slack W s1 = slack W s"
    unfolding s1_def using inv_sorted(1) [of s w] assms
    by (simp add: erase_conns_slack split: option.splits)
  have d2: "slack W s2 = slack W s1"
    unfolding s2_def using inv_sorted(2) [OF i1 [of w]] assms(1,2)
    by (simp add: erase_monitor_slack split: option.splits)
  show ?thesis unfolding res using d1 d2 by simp
qed

lemma fold_RemoveConnectionByID_slack:
  "finite W \<Longrightarrow> w \<in> W \<Longrightarrow> \<forall>v. worker_inv s v \<Longrightarrow>
   slack W (fold (\<lambda>c. RemoveConnectionByID w (fst c) (snd c)) xs s) = slack W s"
proof (induction xs arbitrary: s)
  case Nil
  show ?case by simp
next
  case (Cons x xs)
  have i: "\<forall>v. worker_inv (RemoveConnectionByID w (fst x) (snd x) s) v"
    using RemoveConnectionByID_inv [OF Cons.prems(3)] by blast
  show ?case
    using Cons.IH [OF Cons.prems(1,2) i] RemoveConnectionByID_slack [OF Cons.prems]
    by simp
qed

lemma slack_cursor [simp]:
  "slack W (upd_worker w (\<lambda>k. k\<lparr>last_iter_conn_fd := x\<rparr>) s) = slack W s"
  by (auto simp: slack_def table_count_def intro!: sum.cong)

lemma TimerCB_slack:
  assumes "finite W" "w \<in> W" "\<forall>v. worker_inv s v"
  shows "slack W (TimerCB w s) = slack W s"
proof -
  have "slack W (fold (\<lambda>c. RemoveConnectionByID w (fst c) (snd c)) xs
      (upd_worker w (\<lambda>k. k\<lparr>last_iter_conn_fd := x\<rparr>) s)) = slack W s" for xs x
    using fold_RemoveConnectionByID_slack [OF assms(1,2), of "upd_worker w (\<lambda>k. k\<lparr>last_iter_conn_fd := x\<rparr>) s" xs]
      assms(3) by simp
  then show ?thesis
    by (simp add: TimerCB_def KickoutIdleClients_def Let_def split: prod.splits)
qed

lemma fold_feed_one_workers: "workers (fold (feed_one dns src out) xs s) = workers s"
  by (induction xs arbitrary: s) (simp_all add: feed_one_eq)

lemma AddConnection_slack:
  assumes "finite W" "w \<in> W"
  shows "slack W (snd (AddConnection w c s)) = slack W s"
proof (cases "fst (AddConnection w c s) = OK")
  case False
  then have "snd (AddConnection w c s) = s"
    by (auto simp: AddConnection_eq split: if_splits)
  then show ?thesis by simp
next
  case True
  then have absent: "map_find (conns (workers s w)) (conn_fd (store s c)) = None"
    and room: "client_count (svr s) < maxclients (config (svr s))"
    by (auto simp: AddConnection_eq split: if_splits)
  define s' where "s' = snd (AddConnection w c s)"
  have cs: "conns (workers s' w) = map_put (conn_fd (store s c)) c (conns (workers s w))"
    and ms: "monitor_conns (workers s' w) = monitor_conns (workers s w)"
    and other: "\<And>v. v \<noteq> w \<Longrightarrow> workers s' v = workers s v"
    and cc: "client_count (svr s') = client_count (svr s) + 1"
    using absent room by (simp_all add: s'_def AddConnection_eq)
  have len: "length (conns (workers s' w)) = Suc (length (conns (workers s w)))"
    unfolding cs using absent by (intro length_map_put) (simp add: map_find_None_iff)
  have lc: "table_count W s' = table_count W s + 1"
    unfolding table_count_def
    by (rule sum_one_more [OF assms(1,2)]) (simp_all add: len ms other)
  show ?thesis unfolding s'_def [symmetric] by (simp add: slack_def lc cc)
qed

lemma BecomeMonitorConn_slack:
  assumes "finite W" "w \<in> W" and inv: "\<forall>v. worker_inv s v"
    and g: "map_find (conns (workers s w)) (conn_fd (store s c)) = Some c
          \<or> map_find (monitor_conns (workers s w)) (conn_fd (store s c)) = Some c"
  shows "slack W (BecomeMonitorConn w c s) = slack W s"
proof -
  define fd where "fd = conn_fd (store s c)"
  define s' where "s' = BecomeMonitorConn w c s"
  have iw: "worker_inv s w" using inv by simp
  have cs: "conns (workers s' w) = map_erase fd (conns (workers s w))"
    and ms: "monitor_conns (workers s' w) = map_put fd c (monitor_conns (workers s w))"
    and other: "\<And>v. v \<noteq> w \<Longrightarrow> workers s' v = workers s v"
    and cc: "client_count (svr s') = client_count (svr s)"
    by (simp_all add: s'_def BecomeMonitorConn_def Let_def fd_def EnableFlag_def
        IncrMonitorClientNum_def)
  have "int (length (conns (workers s' w))) + int (length (monitor_conns (workers s' w)))
      = int (length (conns (workers s w))) + int (length (monitor_conns (workers s w))) + 0"
    using g
  proof
    assume "map_find (conns (workers s w)) (conn_fd (store s c)) = Some c"
    then have mem: "(fd, c) \<in> set (conns (workers s w))" unfolding fd_def by (rule map_find_mem)
    then have "fd \<notin> fst ` set (monitor_conns (workers s w))"
      using inv_disjoint [OF iw mem] by auto
    then show ?thesis
      unfolding cs ms
      by (simp add: length_map_put length_map_erase [OF inv_sorted(1) [OF iw] mem])
  next
    assume "map_find (monitor_conns (workers s w)) (conn_fd (store s c)) = Some c"
    then have mem: "(fd, c) \<in> set (monitor_conns (workers s w))"
      unfolding fd_def by (rule map_find_mem)
    then have "fd \<notin> fst ` set (conns (workers s w))"
      using inv_disjoint [OF iw _ mem] by auto
    moreover have "fd \<in> fst ` set (monitor_conns (workers s w))" using mem by force
    ultimately show ?thesis
      unfolding cs ms
      by (simp add: length_map_erase_absent length_map_put_present [OF inv_sorted(2) [OF iw]])
  qed
  then have "table_count W s' = table_count W s + 0"
    unfolding table_count_def
    by (intro sum_one_more [OF assms(1,2)]) (simp_all add: other)
  then show ?thesis unfolding s'_def [symmetric] by (simp add: slack_def cc)
qed


lemma svr_step_refl [simp]: "svr_step s s"
  by (simp add: svr_step_def)

lemma svr_step_trans: "svr_step s s1 \<Longrightarrow> svr_step s1 s2 \<Longrightarrow> svr_step s s2"
  by (auto simp: svr_step_def)

lemma svr_step_capped: "svr_step s s' \<Longrightarrow> capped s \<Longrightarrow> capped s'"
  by (auto simp: svr_step_def capped_def)

lemma svr_step_same: "svr s' = svr s \<Longrightarrow> svr_step s s'"
  by (simp add: svr_step_def)

lemma RemoveConnection_svr_step: "svr_step s (RemoveConnection w fd s)"
  by (simp add: svr_step_def RemoveConnection_def Let_def counter_defs split: option.splits)

lemma RemoveConnectionByID_svr_step: "svr_step s (RemoveConnectionByID w fd i s)"
  by (simp add: svr_step_def RemoveConnectionByID_def Let_def counter_defs split: option.splits)

lemma fold_RemoveConnectionByID_svr_step:
  "svr_step s (fold (\<lambda>c. RemoveConnectionByID w (fst c) (snd c)) xs s)"
proof (induction xs arbitrary: s)
  case Nil
  show ?case by simp
next
  case (Cons x xs)
  show ?case
    using svr_step_trans [OF RemoveConnectionByID_svr_step Cons.IH] by simp
qed

lemma TimerCB_svr_step: "svr_step s (TimerCB w s)"
proof -
  have "svr_step s (fold (\<lambda>c. RemoveConnectionByID w (fst c) (snd c)) xs
      (upd_worker w (\<lambda>k. k\<lparr>last_iter_conn_fd := x\<rparr>) s))" for xs x
    using fold_RemoveConnectionByID_svr_step
      [of "upd_worker w (\<lambda>k. k\<lparr>last_iter_conn_fd := x\<rparr>) s" w xs]
    by (simp add: svr_step_def)
  then show ?thesis
    by (simp add: TimerCB_def KickoutIdleClients_def Let_def split: prod.splits)
qed

lemma AddConnection_capped: "capped s \<Longrightarrow> capped (snd (AddConnection w c s))"
  by (simp add: AddConnection_eq capped_def)

text \<open>The accept callback keeps the count of clients equal to the number of table entries,
  and below the cap.\<close>

lemma newConnection_counts:
  assumes fW: "finite W" "w \<in> W" and inv: "\<forall>v. worker_inv s v"
    and p: "p \<notin> alloc s"
    and m: "map_find (monitor_conns (workers s w)) fd = None"
  shows "slack W (newConnection dns w fd keepalive_ok p peer s) = slack W s
       \<and> (capped s \<longrightarrow> capped (newConnection dns w fd keepalive_ok p peer s))"
proof (cases keepalive_ok)
  case False
  then show ?thesis by (simp add: newConnection_def slack_def table_count_def capped_def)
next
  case True
  define s1 where "s1 = s\<lparr>store := (store s)(p := Connection_new dns fd w), alloc := insert p (alloc s)\<rparr>"
  define s2 where "s2 = bufferevent_enable p EV_READ s1"
  obtain st s3 where r: "AddConnection w p s2 = (st, s3)"
    by (cases "AddConnection w p s2")
  define s4 where "s4 = (case peer of
                             Some (host, port) \<Rightarrow> SetAddr p (host @ '':'' @ to_string (int port)) s3
                           | None \<Rightarrow> s3)"
  define s5 where "s5 = s4\<lparr>sock_log := sock_log s4 @ [Wrote fd (Redis_Error (''ERR '' @ Msg st))]\<rparr>"
  have i1: "worker_inv s1 u" for u
  proof (rule worker_inv_same [of s u])
    show "worker_inv s u" using inv by simp
    show "workers s1 u = workers s u" by (simp add: s1_def)
  next
    fix k q assume ok: "entry_ok s u (k, q)"
    then have "q \<noteq> p" using p by (auto simp: entry_ok_pair)
    then show "entry_ok s1 u (k, q)" using ok by (simp add: entry_ok_pair s1_def)
  qed
  have "worker_inv s2 u" for u
    using i1 [of u] by (simp add: s2_def bufferevent_enable_def worker_inv_upd_conn)
  then have i2: "\<forall>u. worker_inv s2 u" by blast
  have pc: "store s2 p = (Connection_new dns fd w)\<lparr>bev_events := {EV_READ}\<rparr>"
    by (simp add: s2_def s1_def bufferevent_enable_def Connection_new_def)
  have "worker_inv (snd (AddConnection w p s2)) u" for u
  proof (rule AddConnection_inv [OF i2])
    show "p \<in> alloc s2" by (simp add: s2_def s1_def bufferevent_enable_def)
    show "owner (store s2 p) = w" by (simp add: pc Connection_new_def)
    show "map_find (monitor_conns (workers s2 w)) (conn_fd (store s2 p)) = None"
      using m by (simp add: pc Connection_new_def) (simp add: s2_def s1_def bufferevent_enable_def)
  qed
  then have i3: "worker_inv s3 u" for u by (simp add: r)
  have i4: "worker_inv s4 u" for u
    using i3 [of u] by (simp add: s4_def SetAddr_def worker_inv_upd_conn split: option.splits)
  have i5: "\<forall>u. worker_inv s5 u" using i4 by (simp add: s5_def)
  have res: "newConnection dns w fd keepalive_ok p peer s =
      (if \<not> IsOK st then RemoveConnection w (conn_fd (store s4 p)) s5 else s4)"
    unfolding newConnection_def Let_def s1_def [symmetric] s2_def [symmetric] r prod.case
      s4_def [symmetric] s5_def [symmetric]
    using True by simp
  have e2: "svr s2 = svr s" "workers s2 = workers s"
    by (simp_all add: s2_def s1_def bufferevent_enable_def)
  have e4: "svr s4 = svr s3" "workers s4 = workers s3"
    by (simp_all add: s4_def SetAddr_def split: option.splits)
  have e5: "svr s5 = svr s4" "workers s5 = workers s4"
    by (simp_all add: s5_def)
  have sl3: "slack W s3 = slack W s"
    using AddConnection_slack [OF fW, of p s2] slack_same [OF e2] by (simp add: r)
  have sl4: "slack W s4 = slack W s" using slack_same [OF e4] sl3 by simp
  have sl5: "slack W s5 = slack W s" using slack_same [OF e5] sl4 by simp
  have c3: "capped s \<Longrightarrow> capped s3"
    using AddConnection_capped [of s2 w p] e2 by (simp add: r capped_def)
  have c4: "capped s \<Longrightarrow> capped s4" using c3 e4 by (simp add: capped_def)
  have c5: "capped s \<Longrightarrow> capped s5" using c4 e5 by (simp add: capped_def)
  show ?thesis
    unfolding res
    using sl4 sl5 c4 c5 RemoveConnection_slack [OF fW i5]
      svr_step_capped [OF RemoveConnection_svr_step, of s5]
    by simp
qed

lemma exec_counts:
  assumes "finite W" "w \<in> W" "\<forall>v. worker_inv s v" "op_ok w a s"
  shows "slack W (exec dns w a s) = slack W s \<and> (capped s \<longrightarrow> capped (exec dns w a s))"
proof (cases a)
  case (Accept fd keepalive_ok p peer)
  then show ?thesis using newConnection_counts [OF assms(1-3)] assms(4) by simp
next
  case (Admit c)
  then show ?thesis using AddConnection_slack [OF assms(1,2)] AddConnection_capped by simp
next
  case (Remove fd)
  then show ?thesis
    using RemoveConnection_slack [OF assms(1-3)] svr_step_capped [OF RemoveConnection_svr_step]
    by simp
next
  case (RemoveByID fd i)
  then show ?thesis
    using RemoveConnectionByID_slack [OF assms(1-3)]
      svr_step_capped [OF RemoveConnectionByID_svr_step] by simp
next
  case (EnableWrite fd)
  then show ?thesis
    by (simp add: EnableWriteEvent_def bufferevent_enable_def slack_def table_count_def
        capped_def split: option.splits)
next
  case (SendReply fd bytes)
  then show ?thesis
    by (simp add: Reply_def Redis_Reply_def slack_def table_count_def capped_def
        split: option.splits)
next
  case (Promote c)
  have "capped s \<longrightarrow> capped (BecomeMonitorConn w c s)"
    by (simp add: capped_def BecomeMonitorConn_def Let_def EnableFlag_def counter_defs)
  then show ?thesis using Promote BecomeMonitorConn_slack [OF assms(1-3)] assms(4) by simp
next
  case (Feed tv_sec tv_usec src tokens)
  then show ?thesis
    by (simp add: FeedMonitorConns_def Let_def slack_def table_count_def capped_def
        fold_feed_one_svr fold_feed_one_workers)
next
  case (Kill self i a' skipme)
  then show ?thesis
    by (simp add: KillClient_def fold_kill_one slack_def table_count_def capped_def)
next
  case Timer
  then show ?thesis
    using TimerCB_slack [OF assms(1-3)] svr_step_capped [OF TimerCB_svr_step] by simp
qed

lemma run_counts:
  "finite W \<Longrightarrow> \<forall>e \<in> set evs. fst e \<in> W \<Longrightarrow> \<forall>v. worker_inv s v \<Longrightarrow> valid_run dns evs s \<Longrightarrow>
   slack W (run dns evs s) = slack W s \<and> (capped s \<longrightarrow> capped (run dns evs s))"
proof (induction evs arbitrary: s)
  case Nil
  show ?case by simp
next
  case (Cons e evs)
  define s1 where "s1 = exec dns (fst e) (snd e) s"
  have ok: "op_ok (fst e) (snd e) s" and v: "valid_run dns evs s1" and w: "fst e \<in> W"
    and ws: "\<forall>e \<in> set evs. fst e \<in> W"
    using Cons.prems by (simp_all add: s1_def)
  have i1: "\<forall>v. worker_inv s1 v"
    unfolding s1_def using exec_inv [OF Cons.prems(3) ok] by blast
  have st: "slack W s1 = slack W s \<and> (capped s \<longrightarrow> capped s1)"
    unfolding s1_def by (rule exec_counts [OF Cons.prems(1) w Cons.prems(3) ok])
  show ?case
    using Cons.IH [OF Cons.prems(1) ws i1 v] st by (simp flip: s1_def)
qed


text \<open>
  \<open>AddConnection\<close>, in closed form: when the descriptor is in the normal table the
  request is rejected and the state, so the count of clients, is unchanged; otherwise the
  count is incremented, and when the new count exceeds \<open>maxclients\<close> the request is rejected
  with the message "max number of clients reached" and the count is decremented again,
  which gives the first state back; otherwise the Connection is put into the normal table
  (with the next id) and the result is OK. Where the count of clients was the number of
  Connections in the tables before, it is so afterwards, and within the cap if it was. Over
  an execution of the Workers \<open>W\<close> from a state whose tables are in order, the number of
  Connections in the tables stays the count of clients and stays within the cap. This is
  about the tables only: a Connection that is constructed and in no table is not counted.
\<close>

theorem AddConnection_admission:
  assumes "finite W" "w \<in> W" "client_count (svr s) = table_count W s"
  shows "AddConnection w c s =
     (if map_find (conns (workers s w)) (conn_fd (store s c)) \<noteq> None
      then (NotOK ''connection was exists'', s)
      else if maxclients (config (svr s)) < client_count (svr (snd (IncrClientNum s)))
      then (NotOK ''max number of clients reached'', DecrClientNum (snd (IncrClientNum s)))
      else (OK,
            s\<lparr>svr := (svr s)\<lparr>next_id := next_id (svr s) + 1,
                               client_count := client_count (svr s) + 1\<rparr>,
              store := (store s)(c := (store s c)\<lparr>conn_id := next_id (svr s),
                                                  id_assigned := True\<rparr>),
              workers := (workers s)(w := (workers s w)
                 \<lparr>conns := map_put (conn_fd (store s c)) c (conns (workers s w))\<rparr>)\<rparr>))
   \<and> client_count (svr (snd (IncrClientNum s))) = client_count (svr s) + 1
   \<and> DecrClientNum (snd (IncrClientNum s)) = s
   \<and> (fst (AddConnection w c s) = OK \<longrightarrow>
        map_find (conns (workers (snd (AddConnection w c s)) w)) (conn_fd (store s c)) = Some c
        \<and> client_count (svr (snd (AddConnection w c s))) = client_count (svr s) + 1)
   \<and> (fst (AddConnection w c s) \<noteq> OK \<longrightarrow> snd (AddConnection w c s) = s)
   \<and> client_count (svr (snd (AddConnection w c s))) = table_count W (snd (AddConnection w c s))
   \<and> (table_count W s \<le> maxclients (config (svr s)) \<longrightarrow>
        table_count W (snd (AddConnection w c s))
          \<le> maxclients (config (svr (snd (AddConnection w c s)))))
   \<and> ((\<forall>e \<in> set evs. fst e \<in> W) \<and> (\<forall>v. worker_inv s v) \<and> valid_run dns evs s
        \<and> table_count W s \<le> maxclients (config (svr s)) \<longrightarrow>
        client_count (svr (run dns evs s)) = table_count W (run dns evs s)
        \<and> table_count W (run dns evs s) \<le> maxclients (config (svr (run dns evs s))))"
proof -
  have undo: "DecrClientNum (snd (IncrClientNum s)) = s"
    by (simp add: IncrClientNum_def DecrClientNum_def upd_svr_def)
  have incr: "client_count (svr (snd (IncrClientNum s))) = client_count (svr s) + 1"
    by (simp add: IncrClientNum_def upd_svr_def)
  have eq: "AddConnection w c s =
     (if map_find (conns (workers s w)) (conn_fd (store s c)) \<noteq> None
      then (NotOK ''connection was exists'', s)
      else if maxclients (config (svr s)) < client_count (svr (snd (IncrClientNum s)))
      then (NotOK ''max number of clients reached'', DecrClientNum (snd (IncrClientNum s)))
      else (OK,
            s\<lparr>svr := (svr s)\<lparr>next_id := next_id (svr s) + 1,
                               client_count := client_count (svr s) + 1\<rparr>,
              store := (store s)(c := (store s c)\<lparr>conn_id := next_id (svr s),
                                                  id_assigned := True\<rparr>),
              workers := (workers s)(w := (workers s w)
                 \<lparr>conns := map_put (conn_fd (store s c)) c (conns (workers s w))\<rparr>)\<rparr>))"
    unfolding undo incr by (simp add: AddConnection_eq) 
  define s' where "s' = snd (AddConnection w c s)"
  have rest: "(fst (AddConnection w c s) = OK \<longrightarrow>
        map_find (conns (workers s' w)) (conn_fd (store s c)) = Some c
        \<and> client_count (svr s') = client_count (svr s) + 1)
   \<and> (fst (AddConnection w c s) \<noteq> OK \<longrightarrow> s' = s)
   \<and> client_count (svr s') = table_count W s'
   \<and> (table_count W s \<le> maxclients (config (svr s)) \<longrightarrow>
        table_count W s' \<le> maxclients (config (svr s')))"
  proof (cases "fst (AddConnection w c s) = OK")
    case False
    then have same: "s' = s"
      by (auto simp: s'_def AddConnection_eq split: if_splits)
    show ?thesis
      using False assms(3) by (simp add: same)
  next
    case True
    then have absent: "map_find (conns (workers s w)) (conn_fd (store s c)) = None"
      and room: "client_count (svr s) < maxclients (config (svr s))"
      by (auto simp: AddConnection_eq split: if_splits)
    have cs: "conns (workers s' w) = map_put (conn_fd (store s c)) c (conns (workers s w))"
      and ms: "monitor_conns (workers s' w) = monitor_conns (workers s w)"
      and other: "\<And>v. v \<noteq> w \<Longrightarrow> workers s' v = workers s v"
      and cc: "client_count (svr s') = client_count (svr s) + 1"
      and mc: "maxclients (config (svr s')) = maxclients (config (svr s))"
      using absent room by (simp_all add: s'_def AddConnection_eq)
    have len: "length (conns (workers s' w)) = Suc (length (conns (workers s w)))"
      unfolding cs using absent by (intro length_map_put) (simp add: map_find_None_iff)
    have lc: "table_count W s' = table_count W s + 1"
      unfolding table_count_def
      by (rule sum_one_more [OF assms(1,2)]) (simp_all add: len ms other)
    have found: "map_find (conns (workers s' w)) (conn_fd (store s c)) = Some c"
      by (simp add: cs map_find_map_put)
    show ?thesis
      using True assms(3) room by (simp add: lc cc mc found)
  qed
  have runs: "(\<forall>e \<in> set evs. fst e \<in> W) \<and> (\<forall>v. worker_inv s v) \<and> valid_run dns evs s
        \<and> table_count W s \<le> maxclients (config (svr s)) \<longrightarrow>
        client_count (svr (run dns evs s)) = table_count W (run dns evs s)
        \<and> table_count W (run dns evs s) \<le> maxclients (config (svr (run dns evs s)))"
  proof (intro impI)
    assume h: "(\<forall>e \<in> set evs. fst e \<in> W) \<and> (\<forall>v. worker_inv s v) \<and> valid_run dns evs s
        \<and> table_count W s \<le> maxclients (config (svr s))"
    then have cap: "capped s" using assms(3) by (simp add: capped_def)
    have rc: "slack W (run dns evs s) = slack W s \<and> (capped s \<longrightarrow> capped (run dns evs s))"
      using run_counts [OF assms(1), of evs s dns] h by blast
    have "slack W s = 0" using assms(3) by (simp add: slack_def)
    then have "client_count (svr (run dns evs s)) = table_count W (run dns evs s)"
      using rc by (simp add: slack_def)
    moreover have "capped (run dns evs s)" using rc cap by simp
    ultimately show "client_count (svr (run dns evs s)) = table_count W (run dns evs s)
        \<and> table_count W (run dns evs s) \<le> maxclients (config (svr (run dns evs s)))"
      by (simp add: capped_def)
  qed
  show ?thesis
    using eq incr undo rest runs unfolding s'_def by blast
qed

theorem AddConnection_admission_witness:
  "finite {0::nat, 1} \<and> (0::nat) \<in> {0, 1}
   \<and> client_count (svr pending_world) = table_count {0, 1} pending_world
   \<and> table_count {0, 1} pending_world \<le> maxclients (config (svr pending_world))
   \<and> fst (AddConnection 0 15 pending_world) = OK
   \<and> client_count (svr (snd (AddConnection 0 15 pending_world))) = 6
   \<and> table_count {0, 1} (snd (AddConnection 0 15 pending_world)) = 6
   \<and> client_count (svr crowded_world) = table_count {0, 1} crowded_world
   \<and> table_count {0, 1} crowded_world \<le> maxclients (config (svr crowded_world))
   \<and> AddConnection 0 101 crowded_world
       = (NotOK ''max number of clients reached'', crowded_world)
   \<and> table_count {0, 1} (snd (AddConnection 0 101 crowded_world)) = 1
   \<and> list_all (\<lambda>e. fst e \<in> {0, 1}) demo_run \<and> (\<forall>v. worker_inv pending_world v)
   \<and> valid_run ''dflt'' demo_run pending_world
   \<and> table_count {0, 1} (run ''dflt'' demo_run pending_world) = 7
   \<and> client_count (svr (run ''dflt'' demo_run pending_world)) = 7"
proof -
  have f: "finite {0::nat, 1}" "(0::nat) \<in> {0, 1}" by simp_all
  have a1: "client_count (svr pending_world) = table_count {0, 1} pending_world"
    by (simp add: table_count_def pending_world_def sample_world_def empty_worker_def)
  have a2: "client_count (svr crowded_world) = table_count {0, 1} crowded_world"
    by (simp add: table_count_def crowded_world_def full_world_def empty_worker_def)
  have v: "client_count (svr pending_world) = 5"
    "maxclients (config (svr pending_world)) = 10"
    "fst (AddConnection 0 15 pending_world) = OK"
    "client_count (svr crowded_world) = 1"
    "maxclients (config (svr crowded_world)) = 1"
    "fst (AddConnection 0 101 crowded_world) = NotOK ''max number of clients reached''"
    by (simp_all add: pending_world_def sample_world_def crowded_world_def full_world_def
        sample_conn_def empty_worker_def eval_defs)
  note t1 = AddConnection_admission [OF f a1, of 15 demo_run "''dflt''"]
  note t2 = AddConnection_admission [OF f a2, of 101]
  have r1: "\<forall>e \<in> set demo_run. fst e \<in> {0::nat, 1}" by (simp add: demo_run_def)
  have r2: "\<forall>v. worker_inv pending_world v" by (simp add: pending_world_inv)
  have r3: "valid_run ''dflt'' demo_run pending_world" using demo_eval by simp
  have r4: "table_count {0, 1} pending_world \<le> maxclients (config (svr pending_world))"
    using a1 v(1,2) by simp
  have r5: "table_count {0, 1} (run ''dflt'' demo_run pending_world) = 7"
    using demo_eval by (simp add: table_count_def)
  have r6: "client_count (svr (run ''dflt'' demo_run pending_world)) = 7"
    using t1 [THEN conjunct2, THEN conjunct2, THEN conjunct2, THEN conjunct2, THEN conjunct2,
        THEN conjunct2, THEN conjunct2] r1 r2 r3 r4 r5 by simp
  have p1: "client_count (svr (snd (AddConnection 0 15 pending_world))) = 6"
    using t1 [THEN conjunct2, THEN conjunct2, THEN conjunct2, THEN conjunct1] v(1,3) by simp
  have p2: "table_count {0, 1} (snd (AddConnection 0 15 pending_world)) = 6"
    using t1 [THEN conjunct2, THEN conjunct2, THEN conjunct2, THEN conjunct2, THEN conjunct2,
        THEN conjunct1] p1 by simp
  have c1: "snd (AddConnection 0 101 crowded_world) = crowded_world"
    using t2 [THEN conjunct2, THEN conjunct2, THEN conjunct2, THEN conjunct2, THEN conjunct1]
      v(6) by simp
  have c2: "AddConnection 0 101 crowded_world
       = (NotOK ''max number of clients reached'', crowded_world)"
    using c1 v(6) by (simp add: prod_eq_iff)
  show ?thesis
    using f a1 a2 v(1-5) p1 p2 c1 c2 r1 r2 r3 r5 r6 by (simp add: list_all_iff)
qed

text \<open>
  Claim C1, on the code: more live Connections than \<open>maxclients\<close>. The server allows one
  client and holds it (Connection 100 on descriptor 4). Three more clients are accepted,
  on descriptors 5 and 6 by Worker 0 and on descriptor 8 by Worker 1. Each is rejected by
  \<open>AddConnection\<close> at the cap and gets the error, the count of clients and the tables stay
  as they were; but \<open>newConnection\<close> deletes none of the three Connections it constructed
  and closes none of their sockets (its \<open>RemoveConnection\<close> looks for them in the tables,
  where they never were). Four Connections are live where \<open>maxclients\<close> is 1.
\<close>

theorem rejected_connections_exceed_maxclients:
  "(let s' = run ''dflt'' flood_run full_world
    in valid_run ''dflt'' flood_run full_world
       \<and> maxclients (config (svr s')) = 1
       \<and> client_count (svr s') = 1
       \<and> table_count {0, 1} s' = 1
       \<and> alloc s' = {100, 101, 102, 103}
       \<and> card (alloc s') = 4
       \<and> sock_log s' =
           [Wrote 5 (Redis_Error ''ERR max number of clients reached''),
            Wrote 6 (Redis_Error ''ERR max number of clients reached''),
            Wrote 8 (Redis_Error ''ERR max number of clients reached'')])"
  by (simp add: newConnection_def full_world_def empty_worker_def sample_conn_def
      AddConnection_def RemoveConnection_def Connection_new_def bufferevent_enable_def
      upd_conn_def map_find_def IncrClientNum_def DecrClientNum_def upd_svr_def SetAddr_def
      Let_def flood_run_def table_count_def to_string_def) auto

end
